theory Spec2Isabelle
  imports Complex_Main "HOL-Library.AList" "HOL-Library.Char_ord" "HOL-Library.List_Lexorder"
    "HOL-Library.Product_Lexorder" "HOL-Library.Multiset"
begin

unbundle bit_operations_syntax

section \<open>JavaScript values\<close>

text \<open>
  The values the client handles are what \<open>JSON.parse\<close> yields, plus \<open>undefined\<close>.
  A number is an IEEE double; only its class matters below (whether it is a number at
  all, and whether it is an integer), so a finite double is kept as the rational it
  denotes.  An object is the list of its own properties in insertion order.
\<close>

datatype number = Finite rat | NaN | PosInfinity | NegInfinity

datatype jsval =
    Undefined
  | Null
  | Bool bool
  | Num number
  | Str string
  | Arr "jsval list"
  | Obj "(string \<times> jsval) list"

datatype error =
    Error string
  | TypeError
  | InvalidStateError

text \<open>A thrown exception as the value a \<open>catch\<close> handler or a rejected promise holds.\<close>

fun exception_value :: "error \<Rightarrow> jsval" where
  "exception_value (Error msg) = Obj [(''name'', Str ''Error''), (''message'', Str msg)]"
| "exception_value TypeError = Obj [(''name'', Str ''TypeError'')]"
| "exception_value InvalidStateError = Obj [(''name'', Str ''InvalidStateError'')]"

text \<open>The \<open>typeof\<close> operator: \<open>null\<close> and arrays are both \<open>object\<close>.\<close>

fun typeof :: "jsval \<Rightarrow> string" where
  "typeof Undefined = ''undefined''"
| "typeof Null = ''object''"
| "typeof (Bool b) = ''boolean''"
| "typeof (Num n) = ''number''"
| "typeof (Str s) = ''string''"
| "typeof (Arr xs) = ''object''"
| "typeof (Obj ps) = ''object''"

text \<open>\<open>String.prototype.substring(a, b)\<close> for non-negative arguments: the two indices
  are swapped when \<open>a > b\<close> and clipped to the length.\<close>

definition substring :: "string \<Rightarrow> nat \<Rightarrow> nat \<Rightarrow> string" where
  "substring s a b = (let lo = min a b; hi = max a b in take (hi - lo) (drop lo s))"


section \<open>relay.js: the connection to one relay\<close>

subsection \<open>The transport\<close>

text \<open>
  The browser's \<open>WebSocket\<close>: its ready state and the frames handed to \<open>send\<close>, oldest
  first.  A frame is kept as the value given to \<open>JSON.stringify\<close>.  \<open>send\<close> throws
  while the socket is still connecting, queues the frame when it is open, and drops it
  once the socket is closing or closed.
\<close>

datatype ready_state = CONNECTING | OPEN | CLOSING | CLOSED

record websocket =
  readyState :: ready_state
  sent :: "jsval list"

definition ws_send :: "websocket \<Rightarrow> jsval \<Rightarrow> error + websocket" where
  "ws_send w msg =
     (case readyState w of
        CONNECTING \<Rightarrow> Inl InvalidStateError
      | OPEN \<Rightarrow> Inr (w\<lparr>sent := sent w @ [msg]\<rparr>)
      | CLOSING \<Rightarrow> Inr w
      | CLOSED \<Rightarrow> Inr w)"

subsection \<open>The Relay class\<close>

text \<open>A callback is a function reference; the model keeps its identity.\<close>

type_synonym callback = nat

datatype status = Disconnected | Connecting | Connected | Errored

record subscription =
  filters :: "jsval list"
  onEvent :: callback
  onEose :: "callback option"

datatype promise_state = Pending | Fulfilled | Rejected jsval

text \<open>The promise made by \<open>connect\<close>, with the frames that \<open>subscribe\<close> has chained
  onto it with \<open>then\<close>, to be sent once it is fulfilled.\<close>

record promise =
  pstate :: promise_state
  thens :: "jsval list"

text \<open>The three registries are JavaScript \<open>Map\<close>s: association lists in insertion
  order, \<open>set\<close> being \<open>AList.update\<close> and \<open>delete\<close> being \<open>AList.delete\<close>.\<close>

record relay =
  url :: string
  ws :: "websocket option"
  subscriptions :: "(string \<times> subscription) list"
  status :: status
  eventCallbacks :: "(string \<times> callback) list"
  eoseCallbacks :: "(string \<times> callback) list"
  connectionPromise :: "promise option"

text \<open>The constructor, given the normalised URL.\<close>

definition Relay :: "string \<Rightarrow> relay" where
  "Relay u =
     \<lparr>url = u, ws = None, subscriptions = [], status = Disconnected,
      eventCallbacks = [], eoseCallbacks = [], connectionPromise = None\<rparr>"

text \<open>
  \<open>generateSubId\<close>: \<open>Math.random().toString(36).substring(2, 15)\<close>.  The random source
  is the sequence of the base-36 renderings of the successive draws of \<open>Math.random()\<close>;
  the state is the number of draws made so far.
\<close>

type_synonym rng = "nat \<Rightarrow> string"

definition generateSubId :: "rng \<Rightarrow> nat \<Rightarrow> string \<times> nat" where
  "generateSubId draws n = (substring (draws n) 2 15, Suc n)"

text \<open>
  \<open>connect\<close>, as far as it acts at once: nothing when connected or connecting; otherwise
  the status becomes \<open>connecting\<close> and a new promise is stored, whose executor builds the
  socket with the host's constructor \<open>ctor\<close>; if that throws, the status becomes
  \<open>error\<close> and the promise is rejected.
\<close>

definition connect :: "(string \<Rightarrow> error + websocket) \<Rightarrow> relay \<Rightarrow> relay" where
  "connect ctor r =
     (if status r = Connected then r
      else if status r = Connecting then r
      else
        (case ctor (url r) of
           Inr w \<Rightarrow>
             r\<lparr>status := Connecting, ws := Some w,
               connectionPromise := Some \<lparr>pstate = Pending, thens = []\<rparr>\<rparr>
         | Inl e \<Rightarrow>
             r\<lparr>status := Errored,
               connectionPromise := Some \<lparr>pstate = Rejected (exception_value e), thens = []\<rparr>\<rparr>))"

text \<open>\<open>this.ws.send(message)\<close>: a \<open>TypeError\<close> when \<open>ws\<close> is \<open>null\<close>.\<close>

definition relay_send :: "relay \<Rightarrow> jsval \<Rightarrow> error + relay" where
  "relay_send r msg =
     (case ws r of
        None \<Rightarrow> Inl TypeError
      | Some w \<Rightarrow>
          (case ws_send w msg of
             Inl e \<Rightarrow> Inl e
           | Inr w' \<Rightarrow> Inr (r\<lparr>ws := Some w'\<rparr>)))"

text \<open>\<open>this.connect().then(() => this.ws.send(message))\<close>, reached only when the status
  is not \<open>connected\<close>: the frame is chained onto the stored promise.\<close>

definition connect_then_send ::
  "(string \<Rightarrow> error + websocket) \<Rightarrow> relay \<Rightarrow> jsval \<Rightarrow> error + relay" where
  "connect_then_send ctor r msg =
     (let r1 = connect ctor r in
        case connectionPromise r1 of
          None \<Rightarrow> Inl TypeError
        | Some p \<Rightarrow> Inr (r1\<lparr>connectionPromise := Some (p\<lparr>thens := thens p @ [msg]\<rparr>)\<rparr>))"

text \<open>\<open>subscribe\<close> and \<open>unsubscribe\<close>.  A call that throws is its exception alone: what
  it had written to the connection before throwing is not kept.\<close>

definition subscribe ::
  "(string \<Rightarrow> error + websocket) \<Rightarrow> rng \<Rightarrow> relay \<times> nat \<Rightarrow>
   jsval list \<Rightarrow> callback \<Rightarrow> callback option \<Rightarrow> error + (string \<times> relay \<times> nat)" where
  "subscribe ctor draws st fs onEv onEo =
     (let (r, n) = st;
          (subId, n') = generateSubId draws n;
          r1 = r\<lparr>eventCallbacks := AList.update subId onEv (eventCallbacks r)\<rparr>;
          r2 = (case onEo of
                  Some f \<Rightarrow> r1\<lparr>eoseCallbacks := AList.update subId f (eoseCallbacks r1)\<rparr>
                | None \<Rightarrow> r1);
          message = Arr (Str ''REQ'' # Str subId # fs)
      in case (if status r2 = Connected then relay_send r2 message
               else connect_then_send ctor r2 message) of
           Inl e \<Rightarrow> Inl e
         | Inr r3 \<Rightarrow>
             Inr (subId,
                  r3\<lparr>subscriptions :=
                       AList.update subId \<lparr>filters = fs, onEvent = onEv, onEose = onEo\<rparr>
                         (subscriptions r3)\<rparr>,
                  n'))"

definition unsubscribe :: "relay \<Rightarrow> string \<Rightarrow> error + relay" where
  "unsubscribe r subId =
     (case (if status r = Connected then relay_send r (Arr [Str ''CLOSE'', Str subId])
            else Inr r) of
        Inl e \<Rightarrow> Inl e
      | Inr r1 \<Rightarrow>
          Inr (r1\<lparr>subscriptions := AList.delete subId (subscriptions r1),
                  eventCallbacks := AList.delete subId (eventCallbacks r1),
                  eoseCallbacks := AList.delete subId (eoseCallbacks r1)\<rparr>))"

text \<open>A run of \<open>subscribe\<close> calls on one connection, collecting the identifiers
  returned; it stops at the first call that throws.\<close>

fun subscribe_all ::
  "(string \<Rightarrow> error + websocket) \<Rightarrow> rng \<Rightarrow> relay \<times> nat \<Rightarrow>
   (jsval list \<times> callback \<times> callback option) list \<Rightarrow> error + (string list \<times> relay \<times> nat)" where
  "subscribe_all ctor draws st [] = Inr ([], st)"
| "subscribe_all ctor draws st ((fs, onEv, onEo) # calls) =
     (case subscribe ctor draws st fs onEv onEo of
        Inl e \<Rightarrow> Inl e
      | Inr (subId, st') \<Rightarrow>
          (case subscribe_all ctor draws st' calls of
             Inl e \<Rightarrow> Inl e
           | Inr (ids, st'') \<Rightarrow> Inr (subId # ids, st'')))"

subsection \<open>Publishing\<close>

text \<open>
  An asynchronous call is modelled by how its promise ends: fulfilled with a value,
  rejected with a reason, or never settled.  How a connection attempt ends is for the
  network to say: the socket opens, it fails with an error event, or nothing happens.
  Each connection has its own socket, so the attempts at different relays do not
  influence each other, and each is followed to its end on its own.
\<close>

datatype 'a outcome = Resolves 'a | Rejects jsval | Never

datatype net_answer = Opens | Fails jsval | Silent

text \<open>The socket's \<open>onopen\<close> handler: the status becomes \<open>connected\<close> and the promise is
  fulfilled, which runs the sends chained onto it.  The \<open>onerror\<close> handler: the status
  becomes \<open>error\<close> and the promise is rejected.\<close>

definition on_open :: "relay \<Rightarrow> relay" where
  "on_open r =
     r\<lparr>status := Connected,
       ws := map_option
               (\<lambda>w. w\<lparr>readyState := OPEN,
                       sent := sent w @ (case connectionPromise r of
                                           None \<Rightarrow> []
                                         | Some p \<Rightarrow> thens p)\<rparr>)
               (ws r),
       connectionPromise := Some \<lparr>pstate = Fulfilled, thens = []\<rparr>\<rparr>"

definition on_error :: "relay \<Rightarrow> jsval \<Rightarrow> relay" where
  "on_error r e =
     r\<lparr>status := Errored, connectionPromise := Some \<lparr>pstate = Rejected e, thens = []\<rparr>\<rparr>"

text \<open>The rest of \<open>Relay.publish\<close> after the \<open>await\<close>: the event frame is sent; an
  exception there rejects the promise of \<open>publish\<close>, otherwise it is fulfilled with
  \<open>undefined\<close>, the function returning nothing.\<close>

definition send_event :: "relay \<Rightarrow> jsval \<Rightarrow> relay \<times> jsval outcome" where
  "send_event r event =
     (case relay_send r (Arr [Str ''EVENT'', event]) of
        Inl e \<Rightarrow> (r, Rejects (exception_value e))
      | Inr r' \<Rightarrow> (r', Resolves Undefined))"

definition relay_publish ::
  "(string \<Rightarrow> error + websocket) \<Rightarrow> (string \<Rightarrow> net_answer) \<Rightarrow> relay \<Rightarrow> jsval \<Rightarrow>
   relay \<times> jsval outcome" where
  "relay_publish ctor net r event =
     (if status r = Connected then send_event r event
      else
        (let r1 = connect ctor r in
           case connectionPromise r1 of
             None \<Rightarrow> send_event r1 event
           | Some p \<Rightarrow>
               (case pstate p of
                  Fulfilled \<Rightarrow> send_event r1 event
                | Rejected e \<Rightarrow> (r1, Rejects e)
                | Pending \<Rightarrow>
                    (case net (url r1) of
                       Opens \<Rightarrow> send_event (on_open r1) event
                     | Fails e \<Rightarrow> (on_error r1 e, Rejects e)
                     | Silent \<Rightarrow> (r1, Never)))))"

subsection \<open>The RelayPool class\<close>

text \<open>The pool's \<open>Map\<close> from normalised URL to connection, in insertion order.\<close>

type_synonym pool = "(string \<times> relay) list"

text \<open>\<open>promise.catch(handler)\<close> and \<open>Promise.all\<close>.\<close>

definition catch :: "'a outcome \<Rightarrow> (jsval \<Rightarrow> 'a) \<Rightarrow> 'a outcome" where
  "catch p handler = (case p of Rejects e \<Rightarrow> Resolves (handler e) | _ \<Rightarrow> p)"

fun first_rejection :: "'a outcome list \<Rightarrow> jsval option" where
  "first_rejection [] = None"
| "first_rejection (Rejects e # ps) = Some e"
| "first_rejection (p # ps) = first_rejection ps"

fun values_of :: "'a outcome list \<Rightarrow> 'a list option" where
  "values_of [] = Some []"
| "values_of (Resolves v # ps) = map_option ((#) v) (values_of ps)"
| "values_of (p # ps) = None"

definition promise_all :: "'a outcome list \<Rightarrow> 'a list outcome" where
  "promise_all ps =
     (case first_rejection ps of
        Some e \<Rightarrow> Rejects e
      | None \<Rightarrow> (case values_of ps of Some vs \<Rightarrow> Resolves vs | None \<Rightarrow> Never))"

text \<open>The loop of \<open>RelayPool.publish\<close> over the connections, and the method itself.\<close>

fun publish_each ::
  "(string \<Rightarrow> error + websocket) \<Rightarrow> (string \<Rightarrow> net_answer) \<Rightarrow> pool \<Rightarrow> jsval \<Rightarrow>
   pool \<times> jsval outcome list" where
  "publish_each ctor net [] event = ([], [])"
| "publish_each ctor net ((u, r) # rest) event =
     (let (r', p) = relay_publish ctor net r event;
          caught = catch p (\<lambda>err. Obj [(''relay'', Str (url r)), (''error'', err)]);
          (rest', promises) = publish_each ctor net rest event
      in ((u, r') # rest', caught # promises))"

definition pool_publish ::
  "(string \<Rightarrow> error + websocket) \<Rightarrow> (string \<Rightarrow> net_answer) \<Rightarrow> pool \<Rightarrow> jsval \<Rightarrow>
   pool \<times> jsval list outcome" where
  "pool_publish ctor net relays event =
     (let (relays', promises) = publish_each ctor net relays event
      in (relays', promise_all promises))"

text \<open>What one member's entry in the result is, given how its own attempt ends.\<close>

definition entry_of :: "relay \<Rightarrow> jsval outcome \<Rightarrow> jsval" where
  "entry_of r p =
     (case p of
        Rejects err \<Rightarrow> Obj [(''relay'', Str (url r)), (''error'', err)]
      | _ \<Rightarrow> Undefined)"

text \<open>Three relays, the second of which cannot be reached.\<close>

definition three_relays :: pool where
  "three_relays =
     [(''wss://a.example'', Relay ''wss://a.example''),
      (''wss://b.example'', Relay ''wss://b.example''),
      (''wss://c.example'', Relay ''wss://c.example'')]"

definition b_is_down :: "string \<Rightarrow> net_answer" where
  "b_is_down u = (if u = ''wss://b.example'' then Fails (Str ''unreachable'') else Opens)"


text \<open>The local bookkeeping of a connection: its three registries.\<close>

definition registries ::
  "relay \<Rightarrow> (string \<times> subscription) list \<times> (string \<times> callback) list \<times> (string \<times> callback) list" where
  "registries r = (subscriptions r, eventCallbacks r, eoseCallbacks r)"

text \<open>
  What the class maintains between calls: the status is \<open>connected\<close> only from the
  socket's \<open>onopen\<close> on, so a socket is then present and no longer connecting; and the
  status is \<open>connecting\<close> only after \<open>connect\<close> has stored its promise.
\<close>

definition transport_ready :: "relay \<Rightarrow> bool" where
  "transport_ready r =
     ((status r = Connected \<longrightarrow> (\<exists>w. ws r = Some w \<and> readyState w \<noteq> CONNECTING)) \<and>
      (status r = Connecting \<longrightarrow> connectionPromise r \<noteq> None))"

text \<open>Concrete surroundings for the examples: a host whose socket constructor always
  succeeds, a connection whose socket is open, and a random source whose draws all
  render as \<open>0.i\<close> (the base-36 rendering of one half).\<close>

definition fresh_socket :: "string \<Rightarrow> error + websocket" where
  "fresh_socket u = Inr \<lparr>readyState = CONNECTING, sent = []\<rparr>"

definition open_relay :: relay where
  "open_relay =
     (Relay ''wss://relay.example.com'')
       \<lparr>ws := Some \<lparr>readyState = OPEN, sent = []\<rparr>, status := Connected\<rparr>"

definition same_draws :: rng where
  "same_draws n = ''0.i''"


section \<open>Events: sortEvents\<close>

text \<open>
  An event as the data model has it once it is signed: \<open>created_at\<close> an integer number of
  seconds, \<open>id\<close> and the other derived fields strings.  The field \<open>id\<close> is \<open>event_id\<close>
  here.
\<close>

record event =
  event_id :: string
  pubkey :: string
  created_at :: int
  kind :: int
  tags :: "string list list"
  content :: string
  sig :: string

text \<open>
  The comparator handed to \<open>sort\<close>.  \<open>String.prototype.localeCompare\<close> belongs to the
  host (its result depends on the locale's collation), so it is a parameter.
\<close>

definition compare_events :: "(string \<Rightarrow> string \<Rightarrow> int) \<Rightarrow> event \<Rightarrow> event \<Rightarrow> int" where
  "compare_events localeCompare a b =
     (if created_at a \<noteq> created_at b then created_at b - created_at a
      else localeCompare (event_id a) (event_id b))"

text \<open>
  \<open>Array.prototype.sort(comparator)\<close>.  ECMAScript asks for a stable sort; whenever the
  comparator is consistent every stable sort returns the same array, the one insertion
  sort builds: an element goes before the first one it does not compare greater than.
\<close>

fun insert_sorted :: "('a \<Rightarrow> 'a \<Rightarrow> int) \<Rightarrow> 'a \<Rightarrow> 'a list \<Rightarrow> 'a list" where
  "insert_sorted c x [] = [x]"
| "insert_sorted c x (y # ys) =
     (if c x y \<le> 0 then x # y # ys else y # insert_sorted c x ys)"

definition array_sort :: "('a \<Rightarrow> 'a \<Rightarrow> int) \<Rightarrow> 'a list \<Rightarrow> 'a list" where
  "array_sort c xs = foldr (insert_sorted c) xs []"

text \<open>
  Arrays are objects: a variable holds a reference, and the store maps each reference to
  the array's present elements.  \<open>sort\<close> rearranges the array it is called on and
  returns that same reference; calling it on something that is not an array throws.
\<close>

type_synonym ref = nat
type_synonym store = "ref \<Rightarrow> event list option"

definition sortEvents ::
  "(string \<Rightarrow> string \<Rightarrow> int) \<Rightarrow> store \<Rightarrow> ref \<Rightarrow> error + (store \<times> ref)" where
  "sortEvents localeCompare h events =
     (case h events of
        None \<Rightarrow> Inl TypeError
      | Some es \<Rightarrow>
          Inr (h(events \<mapsto> array_sort (compare_events localeCompare) es), events))"

text \<open>The order the feed is to have: newer first, and among events of one second the
  smaller \<open>id\<close> first, strings compared code unit by code unit.\<close>

definition recency_order :: "event \<Rightarrow> event \<Rightarrow> bool" where
  "recency_order a b =
     (created_at a > created_at b \<or>
      (created_at a = created_at b \<and> event_id a \<le> event_id b))"

text \<open>\<open>localeCompare\<close> agrees with the code-unit order on the identifiers at hand, as
  every collation does on identifiers of lower-case hexadecimal digits.\<close>

definition collates_lexically :: "(string \<Rightarrow> string \<Rightarrow> int) \<Rightarrow> string set \<Rightarrow> bool" where
  "collates_lexically localeCompare S =
     (\<forall>x \<in> S. \<forall>y \<in> S. (localeCompare x y \<le> 0) = (x \<le> y))"

text \<open>A concrete collation for the examples: the code-unit comparison itself.\<close>

definition codeunit_compare :: "string \<Rightarrow> string \<Rightarrow> int" where
  "codeunit_compare x y = (if x < y then - 1 else if x = y then 0 else 1)"

definition ev :: "string \<Rightarrow> int \<Rightarrow> string \<Rightarrow> event" where
  "ev i t c =
     \<lparr>event_id = i, pubkey = [], created_at = t, kind = 1, tags = [], content = c, sig = []\<rparr>"


text \<open>Four events, two of them equal in both keys, in an array at reference 0.\<close>

definition feed :: "event list" where
  "feed = [ev ''b'' 5 ''one'', ev ''a'' 7 ''two'', ev ''a'' 5 ''three'', ev ''b'' 5 ''four'']"

definition feed_store :: store where
  "feed_store = Map.empty(0 \<mapsto> feed)"

text \<open>The pair an event is ranked by.\<close>

definition recency_key :: "event \<Rightarrow> int \<times> string" where
  "recency_key e = (- created_at e, event_id e)"


section \<open>Events: validation, hashing, signing and verification\<close>

text \<open>
  Reading a named property, \<open>v.k\<close>: a \<open>TypeError\<close> on \<open>undefined\<close> and \<open>null\<close>, the own
  property or \<open>undefined\<close> on an object.  Of the properties arrays, strings and the
  other primitives bring along only \<open>length\<close> is kept; the code below asks for none of
  them.
\<close>

definition lookup :: "(string \<times> jsval) list \<Rightarrow> string \<Rightarrow> jsval" where
  "lookup ps k = (case map_of ps k of Some v \<Rightarrow> v | None \<Rightarrow> Undefined)"

fun get_prop :: "jsval \<Rightarrow> string \<Rightarrow> error + jsval" where
  "get_prop Undefined k = Inl TypeError"
| "get_prop Null k = Inl TypeError"
| "get_prop (Bool b) k = Inr Undefined"
| "get_prop (Num n) k = Inr Undefined"
| "get_prop (Str s) k =
     Inr (if k = ''length'' then Num (Finite (of_nat (length s))) else Undefined)"
| "get_prop (Arr xs) k =
     Inr (if k = ''length'' then Num (Finite (of_nat (length xs))) else Undefined)"
| "get_prop (Obj ps) k = Inr (lookup ps k)"

text \<open>Sequencing with exceptions: the first error ends the computation.\<close>

definition bind_err :: "error + 'a \<Rightarrow> ('a \<Rightarrow> error + 'b) \<Rightarrow> error + 'b" where
  "bind_err m f = (case m of Inl e \<Rightarrow> Inl e | Inr x \<Rightarrow> f x)"

text \<open>The regular expression \<open>/^[a-f0-9]{64}$/\<close>: without the \<open>m\<close> flag, \<open>$\<close> matches
  at the very end only.\<close>

definition hex_lower :: "char \<Rightarrow> bool" where
  "hex_lower c = ((CHR ''a'' \<le> c \<and> c \<le> CHR ''f'') \<or> (CHR ''0'' \<le> c \<and> c \<le> CHR ''9''))"

definition match_hex64 :: "string \<Rightarrow> bool" where
  "match_hex64 s = (length s = 64 \<and> list_all hex_lower s)"

text \<open>The inner loop over one tag, and the outer loop over the tags.\<close>

fun tag_strings :: "jsval list \<Rightarrow> bool" where
  "tag_strings [] = True"
| "tag_strings (x # xs) = (if typeof x \<noteq> ''string'' then False else tag_strings xs)"

fun tags_arrays :: "jsval list \<Rightarrow> bool" where
  "tags_arrays [] = True"
| "tags_arrays (t # ts) =
     (case t of
        Arr xs \<Rightarrow> if tag_strings xs then tags_arrays ts else False
      | _ \<Rightarrow> False)"

definition validateEvent :: "jsval \<Rightarrow> error + bool" where
  "validateEvent event =
     (if typeof event \<noteq> ''object'' then Inr False
      else bind_err (get_prop event ''kind'') (\<lambda>k.
        if typeof k \<noteq> ''number'' then Inr False
        else bind_err (get_prop event ''content'') (\<lambda>c.
          if typeof c \<noteq> ''string'' then Inr False
          else bind_err (get_prop event ''created_at'') (\<lambda>t.
            if typeof t \<noteq> ''number'' then Inr False
            else bind_err (get_prop event ''pubkey'') (\<lambda>p.
              case p of
                Str s \<Rightarrow>
                  if \<not> match_hex64 s then Inr False
                  else bind_err (get_prop event ''tags'') (\<lambda>ts.
                    case ts of
                      Arr tgs \<Rightarrow> Inr (tags_arrays tgs)
                    | _ \<Rightarrow> Inr False)
              | _ \<Rightarrow> Inr False)))))"

text \<open>
  What the module imports or finds in the host: \<open>JSON.stringify\<close>, the \<open>TextEncoder\<close>,
  and from the noble libraries \<open>sha256\<close>, \<open>bytesToHex\<close> and the three Schnorr operations
  over secp256k1.  \<open>sign\<close> draws fresh auxiliary randomness on every call, which is its
  first argument here.  Byte arrays are lists of numbers.
\<close>

type_synonym bytes = "nat list"

record host =
  json_stringify :: "jsval \<Rightarrow> string"
  utf8_encode :: "string \<Rightarrow> bytes"
  sha256 :: "bytes \<Rightarrow> bytes"
  bytesToHex :: "bytes \<Rightarrow> string"
  schnorr_getPublicKey :: "bytes \<Rightarrow> error + bytes"
  schnorr_sign :: "bytes \<Rightarrow> string \<Rightarrow> bytes \<Rightarrow> error + bytes"
  schnorr_verify :: "jsval \<Rightarrow> string \<Rightarrow> jsval \<Rightarrow> error + bool"

definition serializeEvent :: "host \<Rightarrow> jsval \<Rightarrow> error + string" where
  "serializeEvent H event =
     bind_err (validateEvent event) (\<lambda>ok.
       if \<not> ok then Inl (Error ''Can't serialize event with wrong or missing properties'')
       else bind_err (get_prop event ''pubkey'') (\<lambda>p.
            bind_err (get_prop event ''created_at'') (\<lambda>t.
            bind_err (get_prop event ''kind'') (\<lambda>k.
            bind_err (get_prop event ''tags'') (\<lambda>ts.
            bind_err (get_prop event ''content'') (\<lambda>c.
              Inr (json_stringify H (Arr [Num (Finite 0), p, t, k, ts, c]))))))))"

definition getEventHash :: "host \<Rightarrow> jsval \<Rightarrow> error + string" where
  "getEventHash H event =
     bind_err (serializeEvent H event) (\<lambda>serialized.
       Inr (bytesToHex H (sha256 H (utf8_encode H serialized))))"

text \<open>Decimal rendering of an index, for the property names of a spread array.\<close>

fun decimal :: "nat \<Rightarrow> string" where
  "decimal n =
     (if n < 10 then [char_of (48 + n)]
      else decimal (n div 10) @ [char_of (48 + n mod 10)])"

declare decimal.simps [simp del]

text \<open>The own enumerable properties that \<open>{...v}\<close> copies.\<close>

fun spread :: "jsval \<Rightarrow> (string \<times> jsval) list" where
  "spread (Obj ps) = ps"
| "spread (Arr xs) = zip (map decimal [0..<length xs]) xs"
| "spread (Str s) = zip (map decimal [0..<length s]) (map (\<lambda>c. Str [c]) s)"
| "spread v = []"

definition finalizeEvent :: "host \<Rightarrow> bytes \<Rightarrow> jsval \<Rightarrow> bytes \<Rightarrow> error + jsval" where
  "finalizeEvent H aux eventTemplate secretKey =
     bind_err (schnorr_getPublicKey H secretKey) (\<lambda>pk.
       let event = AList.update ''pubkey'' (Str (bytesToHex H pk)) (spread eventTemplate)
       in bind_err (getEventHash H (Obj event)) (\<lambda>h.
            let event1 = AList.update ''id'' (Str h) event
            in bind_err (schnorr_sign H aux h secretKey) (\<lambda>sg.
                 Inr (Obj (AList.update ''sig'' (Str (bytesToHex H sg)) event1)))))"

definition verifyEvent :: "host \<Rightarrow> jsval \<Rightarrow> error + bool" where
  "verifyEvent H event =
     bind_err (getEventHash H event) (\<lambda>hash.
       bind_err (get_prop event ''id'') (\<lambda>i.
         if Str hash \<noteq> i then Inr False
         else
           (case bind_err (get_prop event ''sig'') (\<lambda>sg.
                 bind_err (get_prop event ''pubkey'') (\<lambda>p.
                   schnorr_verify H sg hash p)) of
              Inl err \<Rightarrow> Inr False
            | Inr b \<Rightarrow> Inr b)))"

text \<open>
  The conditions of a signing round trip.  A template has no \<open>pubkey\<close> yet: its fields
  pass the structural validation when the template validates as soon as a well-formed
  \<open>pubkey\<close> is put in.  A secret key is valid when the library derives a public key from
  it, 32 bytes that render as 64 lower-case hexadecimal digits.  The signature scheme
  is correct when whatever \<open>sign\<close> returns under a key verifies for the same message
  under the public key of that key.
\<close>

definition template_fields_valid :: "jsval \<Rightarrow> bool" where
  "template_fields_valid t =
     (validateEvent (Obj (AList.update ''pubkey'' (Str (replicate 64 (CHR ''0''))) (spread t)))
        = Inr True)"

definition valid_secret_key :: "host \<Rightarrow> bytes \<Rightarrow> bool" where
  "valid_secret_key H sk =
     (\<exists>pk. schnorr_getPublicKey H sk = Inr pk \<and> match_hex64 (bytesToHex H pk))"

definition schnorr_correct :: "host \<Rightarrow> bool" where
  "schnorr_correct H =
     (\<forall>aux m sk pk. schnorr_getPublicKey H sk = Inr pk \<longrightarrow>
        (\<exists>sg. schnorr_sign H aux m sk = Inr sg \<and>
              schnorr_verify H (Str (bytesToHex H sg)) m (Str (bytesToHex H pk)) = Inr True))"

text \<open>
  A stand-in host for the examples, nothing more: the public key is the secret key, a
  signature is the key followed by the message, and the hash is a one-byte checksum.
\<close>

definition hex_pair :: "nat \<Rightarrow> string" where
  "hex_pair b = [''0123456789abcdef'' ! (b div 16 mod 16), ''0123456789abcdef'' ! (b mod 16)]"

definition demo_stringify :: "jsval \<Rightarrow> string" where
  "demo_stringify v =
     (case v of
        Arr xs \<Rightarrow> concat (map (\<lambda>x. case x of Str s \<Rightarrow> s | _ \<Rightarrow> ''-'') xs)
      | _ \<Rightarrow> ''-'')"

definition demo_verify :: "jsval \<Rightarrow> string \<Rightarrow> jsval \<Rightarrow> error + bool" where
  "demo_verify sg m p =
     (case (sg, p) of
        (Str s, Str q) \<Rightarrow> Inr (s = q @ concat (map hex_pair (map of_char m)))
      | _ \<Rightarrow> Inl (Error ''bad input''))"

definition demo_host :: host where
  "demo_host =
     \<lparr>json_stringify = demo_stringify,
      utf8_encode = map of_char,
      sha256 = (\<lambda>bs. [sum_list bs mod 256]),
      bytesToHex = (\<lambda>bs. concat (map hex_pair bs)),
      schnorr_getPublicKey = (\<lambda>sk. if length sk = 32 then Inr sk else Inl (Error ''bad key'')),
      schnorr_sign = (\<lambda>aux m sk. Inr (sk @ map of_char m)),
      schnorr_verify = demo_verify\<rparr>"

definition demo_template :: jsval where
  "demo_template =
     Obj [(''kind'', Num (Finite 1)), (''created_at'', Num (Finite 1700000000)),
          (''tags'', Arr [Arr [Str ''p'', Str ''abc'']]), (''content'', Str ''hello'')]"

definition demo_key :: bytes where
  "demo_key = replicate 32 7"

text \<open>An event whose \<open>kind\<close> is one and a half, well-formed otherwise.\<close>

definition fractional_kind_event :: jsval where
  "fractional_kind_event =
     Obj [(''kind'', Num (Finite (3 / 2))), (''content'', Str []),
          (''created_at'', Num (Finite 0)), (''pubkey'', Str (replicate 64 (CHR ''0''))),
          (''tags'', Arr [])]"


text \<open>The signed event the stand-in host makes of the template, and an event with no
  property at all.\<close>

definition demo_signed :: jsval where
  "demo_signed =
     Obj [(''kind'', Num (Finite 1)), (''created_at'', Num (Finite 1700000000)),
          (''tags'', Arr [Arr [Str ''p'', Str ''abc'']]), (''content'', Str ''hello''),
          (''pubkey'', Str ''0707070707070707070707070707070707070707070707070707070707070707''),
          (''id'', Str ''a8''),
          (''sig'',
           Str ''07070707070707070707070707070707070707070707070707070707070707076138'')]"

definition empty_event :: jsval where
  "empty_event = Obj []"


section \<open>NIP-19: the bech32 codec\<close>

subsection \<open>JavaScript's 32-bit integer operators\<close>

text \<open>
  The numbers of this module are integers.  A bitwise operator first wraps its operands
  into the signed 32-bit range, takes a shift count modulo 32, and yields a signed 32-bit
  number; \<open>>>\<close> keeps the sign.
\<close>

definition to_int32 :: "int \<Rightarrow> int" where
  "to_int32 x = signed_take_bit 31 x"

definition js_shl :: "int \<Rightarrow> int \<Rightarrow> int" where
  "js_shl x n = to_int32 (push_bit (nat (n mod 32)) (to_int32 x))"

definition js_sar :: "int \<Rightarrow> int \<Rightarrow> int" where
  "js_sar x n = drop_bit (nat (n mod 32)) (to_int32 x)"

definition js_and :: "int \<Rightarrow> int \<Rightarrow> int" where
  "js_and x y = to_int32 x AND to_int32 y"

definition js_or :: "int \<Rightarrow> int \<Rightarrow> int" where
  "js_or x y = to_int32 x OR to_int32 y"

definition js_xor :: "int \<Rightarrow> int \<Rightarrow> int" where
  "js_xor x y = to_int32 x XOR to_int32 y"

subsection \<open>Strings and arrays of the host\<close>

text \<open>\<open>indexOf\<close> and \<open>lastIndexOf\<close> of a single character: the position, or \<open>-1\<close>.\<close>

fun indexOf :: "string \<Rightarrow> char \<Rightarrow> int" where
  "indexOf [] c = - 1"
| "indexOf (x # xs) c =
     (if x = c then 0 else (let r = indexOf xs c in if r = - 1 then - 1 else r + 1))"

fun lastIndexOf :: "string \<Rightarrow> char \<Rightarrow> int" where
  "lastIndexOf [] c = - 1"
| "lastIndexOf (x # xs) c =
     (let r = lastIndexOf xs c in if r \<noteq> - 1 then r + 1 else if x = c then 0 else - 1)"

text \<open>A number as \<open>join\<close> renders it, and in radix 16 as \<open>toString(16)\<close> does.\<close>

definition number_string :: "int \<Rightarrow> string" where
  "number_string i = (if i < 0 then CHR ''-'' # decimal (nat (- i)) else decimal (nat i))"

fun hex_digits :: "nat \<Rightarrow> string" where
  "hex_digits n =
     (if n < 16 then [''0123456789abcdef'' ! n]
      else hex_digits (n div 16) @ [''0123456789abcdef'' ! (n mod 16)])"

declare hex_digits.simps [simp del]

definition toString16 :: "int \<Rightarrow> string" where
  "toString16 i = (if i < 0 then CHR ''-'' # hex_digits (nat (- i)) else hex_digits (nat i))"

definition padStart2 :: "string \<Rightarrow> string" where
  "padStart2 s = replicate (2 - length s) (CHR ''0'') @ s"

definition join_numbers :: "int list \<Rightarrow> string" where
  "join_numbers xs = concat (map number_string xs)"

subsection \<open>The codec\<close>

definition BECH32_CHARSET :: string where
  "BECH32_CHARSET = ''qpzry9x8gf2tvdw0s3jn54khce6mua7l''"

text \<open>\<open>BECH32_CHARSET[i]\<close> inside \<open>map(...).join('')\<close>: an index outside the string gives
  \<open>undefined\<close>, which \<open>join\<close> renders as nothing.\<close>

definition charset_at :: "int \<Rightarrow> string" where
  "charset_at i =
     (if 0 \<le> i \<and> i < int (length BECH32_CHARSET) then [BECH32_CHARSET ! nat i] else [])"

definition GEN :: "int list" where
  "GEN = [0x3b6a57b2, 0x26508e6d, 0x1ea119fa, 0x3d4233dd, 0x2a1462b3]"

text \<open>The inner loop of \<open>bech32Polymod\<close> over \<open>j\<close>, and one round of the outer loop.\<close>

fun polymod_gen :: "int \<Rightarrow> nat list \<Rightarrow> int \<Rightarrow> int" where
  "polymod_gen b [] chk = chk"
| "polymod_gen b (j # js) chk =
     polymod_gen b js
       (if js_and (js_sar b (int j)) 1 \<noteq> 0 then js_xor chk (GEN ! j) else chk)"

definition polymod_step :: "int \<Rightarrow> int \<Rightarrow> int" where
  "polymod_step chk v =
     (let b = js_sar chk 25;
          chk1 = js_xor (js_shl (js_and chk 0x1ffffff) 5) v
      in polymod_gen b [0..<5] chk1)"

definition bech32Polymod :: "int list \<Rightarrow> int" where
  "bech32Polymod values = foldl polymod_step 1 values"

definition prefixExpand :: "string \<Rightarrow> int list" where
  "prefixExpand prefix =
     map (\<lambda>c. js_sar (of_char c) 5) prefix @ [0] @ map (\<lambda>c. js_and (of_char c) 31) prefix"

definition createChecksum :: "string \<Rightarrow> int list \<Rightarrow> int list" where
  "createChecksum prefix data =
     (let values = prefixExpand prefix @ data @ [0, 0, 0, 0, 0, 0];
          polymod = js_xor (bech32Polymod values) 1
      in map (\<lambda>i. js_and (js_sar polymod (5 * (5 - int i))) 31) [0..<6])"

text \<open>
  The \<open>while\<close> loop of \<open>convertBits\<close>, which moves complete output groups out of the
  accumulator.  The module calls \<open>convertBits\<close> with the group sizes 8 and 5 only; with
  an output size of 0 the source's loop would not end, and the model stops there.
\<close>

function drain :: "nat \<Rightarrow> int \<Rightarrow> int \<Rightarrow> nat \<Rightarrow> int list \<Rightarrow> nat \<times> int list" where
  "drain toBits maxv acc bits result =
     (if toBits \<le> bits \<and> 0 < toBits
      then drain toBits maxv acc (bits - toBits)
             (result @ [js_and (js_sar acc (int (bits - toBits))) maxv])
      else (bits, result))"
  by pat_completeness auto
termination
  by (relation "measure (\<lambda>(toBits, maxv, acc, bits, result). bits)") auto

declare drain.simps [simp del]

function convert_loop ::
  "nat \<Rightarrow> nat \<Rightarrow> int \<Rightarrow> int list \<Rightarrow> int \<Rightarrow> nat \<Rightarrow> int list \<Rightarrow> error + (int \<times> nat \<times> int list)" where
  "convert_loop fromBits toBits maxv [] acc bits result = Inr (acc, bits, result)"
| "convert_loop fromBits toBits maxv (v # vs) acc bits result =
     (if v < 0 \<or> js_sar v (int fromBits) \<noteq> 0 then Inl (Error ''Invalid data'')
      else
        (let acc1 = js_or (js_shl acc (int fromBits)) v;
             (bits1, result1) = drain toBits maxv acc1 (bits + fromBits) result
         in convert_loop fromBits toBits maxv vs acc1 bits1 result1))"
  by pat_completeness auto
termination
  by (relation "measure (\<lambda>(fromBits, toBits, maxv, vs, acc, bits, result). length vs)") auto

definition convertBits :: "int list \<Rightarrow> nat \<Rightarrow> nat \<Rightarrow> bool \<Rightarrow> error + int list" where
  "convertBits data fromBits toBits pad =
     (let maxv = js_shl 1 (int toBits) - 1
      in bind_err (convert_loop fromBits toBits maxv data 0 0 [])
           (\<lambda>(acc, bits, result).
              if pad
              then (if bits > 0
                    then Inr (result @ [js_and (js_shl acc (int toBits - int bits)) maxv])
                    else Inr result)
              else (if bits \<ge> fromBits \<or> js_and (js_shl acc (int toBits - int bits)) maxv \<noteq> 0
                    then Inl (Error ''Invalid padding'')
                    else Inr result)))"

definition bech32Encode :: "string \<Rightarrow> int list \<Rightarrow> error + string" where
  "bech32Encode prefix data =
     bind_err (convertBits data 8 5 True) (\<lambda>combined.
       let checksum = createChecksum prefix combined;
           encoded = concat (map charset_at (combined @ checksum))
       in Inr (prefix @ ''1'' @ encoded))"

text \<open>The loop of \<open>bech32Decode\<close> over the characters after the separator.\<close>

fun decode_chars :: "string \<Rightarrow> error + int list" where
  "decode_chars [] = Inr []"
| "decode_chars (c # cs) =
     (let v = indexOf BECH32_CHARSET c
      in if v = - 1 then Inl (Error ''Invalid character'')
         else bind_err (decode_chars cs) (\<lambda>vs. Inr (v # vs)))"

definition bech32Decode :: "string \<Rightarrow> error + (string \<times> int list)" where
  "bech32Decode str =
     (let pos = lastIndexOf str (CHR ''1'')
      in if pos < 1 then Inl (Error ''Invalid bech32 string'')
         else
           (let prefix = take (nat pos) str;
                data = drop (nat pos + 1) str
            in bind_err (decode_chars data) (\<lambda>decoded.
                 let payload = take (length decoded - 6) decoded;
                     checksum = drop (length decoded - 6) decoded;
                     expectedChecksum = createChecksum prefix payload
                 in if join_numbers checksum \<noteq> join_numbers expectedChecksum
                    then Inl (Error ''Invalid checksum'')
                    else bind_err (convertBits payload 5 8 False) (\<lambda>bytes.
                           Inr (prefix, bytes)))))"

text \<open>The module's own \<open>bytesToHex\<close>, and the three typed decoders.\<close>

definition bytesToHex_nip19 :: "int list \<Rightarrow> string" where
  "bytesToHex_nip19 bs = concat (map (\<lambda>b. padStart2 (toString16 b)) bs)"

definition npubDecode :: "string \<Rightarrow> error + string" where
  "npubDecode npub =
     bind_err (bech32Decode npub) (\<lambda>(prefix, data).
       if prefix \<noteq> ''npub'' then Inl (Error ''Invalid npub'')
       else Inr (bytesToHex_nip19 data))"

definition nsecDecode :: "string \<Rightarrow> error + string" where
  "nsecDecode nsec =
     bind_err (bech32Decode nsec) (\<lambda>(prefix, data).
       if prefix \<noteq> ''nsec'' then Inl (Error ''Invalid nsec'')
       else Inr (bytesToHex_nip19 data))"

definition noteDecode :: "string \<Rightarrow> error + string" where
  "noteDecode note =
     bind_err (bech32Decode note) (\<lambda>(prefix, data).
       if prefix \<noteq> ''note'' then Inl (Error ''Invalid note'')
       else Inr (bytesToHex_nip19 data))"

text \<open>A byte array: numbers from 0 to 255.\<close>

definition is_bytes :: "int list \<Rightarrow> bool" where
  "is_bytes bs = list_all (\<lambda>b. 0 \<le> b \<and> b < 256) bs"


text \<open>
  For the proofs: the number a sequence of \<open>w\<close>-bit groups denotes, most significant group
  first, and the sequences whose elements all are \<open>w\<close>-bit groups.
\<close>

fun digits_value :: "nat \<Rightarrow> int list \<Rightarrow> int" where
  "digits_value w [] = 0"
| "digits_value w (x # xs) = x * 2 ^ (w * length xs) + digits_value w xs"

definition groups :: "nat \<Rightarrow> int list \<Rightarrow> bool" where
  "groups w xs = list_all (\<lambda>x. 0 \<le> x \<and> x < 2 ^ w) xs"

text \<open>The public key of the examples of NIP-19, as bytes.\<close>

definition example_key :: "int list" where
  "example_key =
     [0x3b, 0xf0, 0xc6, 0x3f, 0xcb, 0x93, 0x46, 0x34, 0x07, 0xaf, 0x97, 0xa5, 0xe5, 0xee, 0x64,
      0xfa, 0x88, 0x3d, 0x10, 0x7e, 0xf9, 0xe5, 0x58, 0x47, 0x2c, 0x4e, 0xb9, 0xaa, 0xae, 0xfa,
      0x45, 0x9d]"


section \<open>Properties of the relay connection\<close>

lemma relay_send_ready:
  assumes "ws r = Some w" and "readyState w \<noteq> CONNECTING"
  shows "relay_send r m =
         Inr (r\<lparr>ws := Some (if readyState w = OPEN then w\<lparr>sent := sent w @ [m]\<rparr> else w)\<rparr>)"
  using assms by (cases "readyState w") (simp_all add: relay_send_def ws_send_def)

lemma unsubscribe_not_connected:
  "status r \<noteq> Connected \<Longrightarrow>
   unsubscribe r sid =
     Inr (r\<lparr>subscriptions := AList.delete sid (subscriptions r),
            eventCallbacks := AList.delete sid (eventCallbacks r),
            eoseCallbacks := AList.delete sid (eoseCallbacks r)\<rparr>)"
  by (simp add: unsubscribe_def)

lemma unsubscribe_connected:
  assumes "status r = Connected" and "ws r = Some w" and "readyState w \<noteq> CONNECTING"
  shows "unsubscribe r sid =
     Inr (r\<lparr>ws := Some (if readyState w = OPEN
                          then w\<lparr>sent := sent w @ [Arr [Str ''CLOSE'', Str sid]]\<rparr> else w),
            subscriptions := AList.delete sid (subscriptions r),
            eventCallbacks := AList.delete sid (eventCallbacks r),
            eoseCallbacks := AList.delete sid (eoseCallbacks r)\<rparr>)"
  using assms by (simp add: unsubscribe_def relay_send_ready)

lemma unsubscribe_returns:
  assumes "transport_ready r"
  shows "\<exists>r'. unsubscribe r sid = Inr r' \<and>
           registries r' = (AList.delete sid (subscriptions r),
                            AList.delete sid (eventCallbacks r),
                            AList.delete sid (eoseCallbacks r)) \<and>
           status r' = status r \<and> url r' = url r \<and>
           connectionPromise r' = connectionPromise r \<and>
           (if status r = Connected
            then \<exists>w. ws r = Some w \<and>
                   ws r' = Some (if readyState w = OPEN
                                 then w\<lparr>sent := sent w @ [Arr [Str ''CLOSE'', Str sid]]\<rparr>
                                 else w)
            else ws r' = ws r) \<and> transport_ready r'"
proof (cases "status r = Connected")
  case True
  with assms obtain w where w: "ws r = Some w" "readyState w \<noteq> CONNECTING"
    by (auto simp: transport_ready_def)
  show ?thesis
    using True w by (auto simp: unsubscribe_connected[OF True w] registries_def transport_ready_def)
next
  case False
  then show ?thesis using assms
    by (auto simp: unsubscribe_not_connected registries_def transport_ready_def)
qed

text \<open>
  Claim C7, as the code has it.  On a connection whose transport is usable,
  \<open>unsubscribe(id)\<close> always returns; it deletes \<open>id\<close> from the subscription, event-callback
  and end-of-stored-events registries whatever the status is, and leaves the status, the
  URL and the connection promise alone.  A second call with the same \<open>id\<close> leaves the
  registries as the first call left them, and for an \<open>id\<close> that is in none of the
  registries they are unchanged (otherwise they change).  The transport is untouched
  unless the status is \<open>connected\<close>; then every call, also a repeated one and one for
  an unknown \<open>id\<close>, hands a \<open>CLOSE\<close> frame to the socket.
\<close>

theorem unsubscribe_local_bookkeeping:
  assumes "transport_ready r"
  shows "\<exists>r' r''. unsubscribe r sid = Inr r' \<and>
           registries r' = (AList.delete sid (subscriptions r),
                            AList.delete sid (eventCallbacks r),
                            AList.delete sid (eoseCallbacks r)) \<and>
           sid \<notin> fst ` set (subscriptions r') \<and>
           sid \<notin> fst ` set (eventCallbacks r') \<and>
           sid \<notin> fst ` set (eoseCallbacks r') \<and>
           status r' = status r \<and> url r' = url r \<and>
           connectionPromise r' = connectionPromise r \<and>
           (if status r = Connected
            then \<exists>w. ws r = Some w \<and>
                   ws r' = Some (if readyState w = OPEN
                                 then w\<lparr>sent := sent w @ [Arr [Str ''CLOSE'', Str sid]]\<rparr>
                                 else w)
            else ws r' = ws r) \<and>
           unsubscribe r' sid = Inr r'' \<and> registries r'' = registries r' \<and>
           (if sid \<in> fst ` set (subscriptions r) \<union> fst ` set (eventCallbacks r) \<union>
                    fst ` set (eoseCallbacks r)
            then registries r' \<noteq> registries r else registries r' = registries r)"
proof -
  from unsubscribe_returns[OF assms, of sid] obtain r' where
    1: "unsubscribe r sid = Inr r'" and
    2: "registries r' = (AList.delete sid (subscriptions r),
                            AList.delete sid (eventCallbacks r),
                            AList.delete sid (eoseCallbacks r))" and
    3: "status r' = status r \<and> url r' = url r \<and> connectionPromise r' = connectionPromise r" and
    4: "(if status r = Connected
            then \<exists>w. ws r = Some w \<and>
                   ws r' = Some (if readyState w = OPEN
                                 then w\<lparr>sent := sent w @ [Arr [Str ''CLOSE'', Str sid]]\<rparr>
                                 else w)
            else ws r' = ws r)" and
    5: "transport_ready r'" by blast
  from unsubscribe_returns[OF 5, of sid] obtain r'' where
    6: "unsubscribe r' sid = Inr r''" and
    7: "registries r'' = (AList.delete sid (subscriptions r'),
                            AList.delete sid (eventCallbacks r'),
                            AList.delete sid (eoseCallbacks r'))" by blast
  from 2 have 8: "subscriptions r' = AList.delete sid (subscriptions r)"
     "eventCallbacks r' = AList.delete sid (eventCallbacks r)"
     "eoseCallbacks r' = AList.delete sid (eoseCallbacks r)"
    by (simp_all add: registries_def)
  have 9: "registries r'' = registries r'"
    using 7 8 by (simp add: registries_def delete_idem)
  have 10: "sid \<notin> fst ` set (subscriptions r')" "sid \<notin> fst ` set (eventCallbacks r')"
     "sid \<notin> fst ` set (eoseCallbacks r')"
    using 8 by (simp_all add: delete_notin_dom)
  have 11: "(if sid \<in> fst ` set (subscriptions r) \<union> fst ` set (eventCallbacks r) \<union>
                    fst ` set (eoseCallbacks r)
            then registries r' \<noteq> registries r else registries r' = registries r)"
  proof (cases "sid \<in> fst ` set (subscriptions r) \<union> fst ` set (eventCallbacks r) \<union>
                    fst ` set (eoseCallbacks r)")
    case True
    then have "registries r' \<noteq> registries r"
      using 10 8 unfolding registries_def by (metis Un_iff prod.inject)
    with True show ?thesis by simp
  next
    case False
    then show ?thesis using 8 by (simp add: registries_def)
  qed
  show ?thesis using 1 2 3 4 6 9 10 11 by blast
qed

text \<open>The theorem at a connected relay with an open socket.\<close>

theorem unsubscribe_local_bookkeeping_witness:
  "transport_ready open_relay \<and>
   (\<exists>r'. unsubscribe open_relay ''x'' = Inr r' \<and> registries r' = ([], [], []) \<and>
         status r' = Connected)"
proof -
  have t: "transport_ready open_relay"
    by (simp add: transport_ready_def open_relay_def Relay_def)
  from unsubscribe_local_bookkeeping[OF t, of "''x''"] show ?thesis
    using t by (auto simp: open_relay_def Relay_def)
qed

text \<open>
  Not side-effect-free for an unknown identifier: on a connected relay with no
  subscription at all, \<open>unsubscribe\<close> of an identifier never handed out still sends a
  \<open>CLOSE\<close> frame, so the connection after the call is not the connection before it.
\<close>

theorem unsubscribe_unknown_id_sends_close:
  "registries open_relay = ([], [], []) \<and>
   unsubscribe open_relay ''x'' =
     Inr (open_relay\<lparr>ws := Some \<lparr>readyState = OPEN, sent = [Arr [Str ''CLOSE'', Str ''x'']]\<rparr>\<rparr>) \<and>
   unsubscribe open_relay ''x'' \<noteq> Inr open_relay"
  by (simp add: unsubscribe_def relay_send_def ws_send_def open_relay_def Relay_def
      registries_def)

lemma connect_promise:
  "transport_ready r \<Longrightarrow> status r \<noteq> Connected \<Longrightarrow>
   connectionPromise (connect ctor r) \<noteq> None \<and> status (connect ctor r) \<noteq> Connected"
  by (auto simp: connect_def transport_ready_def split: sum.splits)

lemma send_or_chain:
  assumes "transport_ready r2"
  shows "\<exists>r3. (if status r2 = Connected then relay_send r2 msg
               else connect_then_send ctor r2 msg) = Inr r3 \<and> transport_ready r3"
proof (cases "status r2 = Connected")
  case True
  with assms obtain w where w: "ws r2 = Some w" "readyState w \<noteq> CONNECTING"
    by (auto simp: transport_ready_def)
  show ?thesis using True w assms
    by (auto simp: relay_send_ready[OF w] transport_ready_def)
next
  case False
  from connect_promise[OF assms False, of ctor] obtain p where
    p: "connectionPromise (connect ctor r2) = Some p" and s: "status (connect ctor r2) \<noteq> Connected"
    by auto
  show ?thesis using False p s
    by (simp add: connect_then_send_def Let_def transport_ready_def)
qed

lemma subscribe_returns:
  assumes "transport_ready r"
  shows "\<exists>r'. subscribe ctor draws (r, n) fs oe oo = Inr (substring (draws n) 2 15, r', Suc n) \<and>
              transport_ready r'"
proof -
  let ?sid = "substring (draws n) 2 15"
  let ?r2 = "(case oo of
                  Some f \<Rightarrow> r\<lparr>eventCallbacks := AList.update ?sid oe (eventCallbacks r),
                               eoseCallbacks := AList.update ?sid f (eoseCallbacks r)\<rparr>
                | None \<Rightarrow> r\<lparr>eventCallbacks := AList.update ?sid oe (eventCallbacks r)\<rparr>)"
  let ?msg = "Arr (Str ''REQ'' # Str ?sid # fs)"
  have "transport_ready ?r2"
    using assms by (auto simp: transport_ready_def split: option.splits)
  from send_or_chain[OF this, of ?msg ctor] obtain r3 where
    r3: "(if status ?r2 = Connected then relay_send ?r2 ?msg
               else connect_then_send ctor ?r2 ?msg) = Inr r3" and t3: "transport_ready r3" by blast
  have "subscribe ctor draws (r, n) fs oe oo =
     Inr (?sid, r3\<lparr>subscriptions := AList.update ?sid \<lparr>filters = fs, onEvent = oe, onEose = oo\<rparr>
                         (subscriptions r3)\<rparr>, Suc n)"
    using r3 by (cases oo; hypsubst; simp add: subscribe_def generateSubId_def Let_def split: if_splits)
  moreover have "transport_ready (r3\<lparr>subscriptions := AList.update ?sid \<lparr>filters = fs, onEvent = oe, onEose = oo\<rparr>
                         (subscriptions r3)\<rparr>)"
    using t3 by (simp add: transport_ready_def)
  ultimately show ?thesis by simp
qed

text \<open>
  Claim C9, as the code has it.  Every \<open>subscribe\<close> call on a connection whose transport
  is usable returns, and the identifier it returns is characters 2 to 14 of the base-36
  rendering of one fresh draw of \<open>Math.random()\<close>: a run of calls starting at draw \<open>n\<close>
  returns exactly those substrings of the draws \<open>n, n + 1, ...\<close>, in order.  Nothing is
  compared with the identifiers already handed out, so the identifiers are pairwise
  distinct exactly when those substrings are.
\<close>

theorem subscribe_all_ids:
  assumes "transport_ready r"
  shows "\<exists>r'. subscribe_all ctor draws (r, n) calls =
           Inr (map (\<lambda>k. substring (draws k) 2 15) [n..<n + length calls], r', n + length calls)"
  using assms
proof (induction calls arbitrary: r n)
  case Nil
  then show ?case by simp
next
  case (Cons c calls)
  obtain fs oe oo where c: "c = (fs, oe, oo)" by (cases c)
  from subscribe_returns[OF Cons.prems, of ctor draws n fs oe oo] obtain r1 where
    s: "subscribe ctor draws (r, n) fs oe oo = Inr (substring (draws n) 2 15, r1, Suc n)"
    and t: "transport_ready r1" by blast
  from Cons.IH[OF t, of "Suc n"] obtain r' where
    a: "subscribe_all ctor draws (r1, Suc n) calls =
           Inr (map (\<lambda>k. substring (draws k) 2 15) [Suc n..<Suc n + length calls], r', Suc n + length calls)"
    by blast
  have u: "[n..<n + length (c # calls)] = n # [Suc n..<Suc n + length calls]"
    by (simp add: upt_conv_Cons del: upt_Suc)
  show ?case unfolding u using s a by (simp add: c)
qed

text \<open>The theorem at a new connection and one call.\<close>

theorem subscribe_all_ids_witness:
  "transport_ready (Relay ''wss://relay.example.com'') \<and>
   map_sum id fst
     (subscribe_all fresh_socket same_draws (Relay ''wss://relay.example.com'', 0)
        [([], 1, None)]) = Inr [''i'']"
proof -
  have t: "transport_ready (Relay ''wss://relay.example.com'')"
    by (simp add: transport_ready_def Relay_def)
  from subscribe_all_ids[OF t, of fresh_socket same_draws 0 "[([], 1, None)]"]
  show ?thesis using t by (auto simp: same_draws_def substring_def)
qed

text \<open>
  Two calls on a new connection while \<open>Math.random()\<close> draws one half twice: both calls
  return the identifier \<open>i\<close>.
\<close>

theorem subscribe_repeated_draw_same_id:
  "map_sum id fst
     (subscribe_all fresh_socket same_draws (Relay ''wss://relay.example.com'', 0)
        [([], 1, None), ([], 2, None)]) = Inr [''i'', ''i'']"
  by (simp add: subscribe_def generateSubId_def same_draws_def substring_def
      connect_then_send_def connect_def fresh_socket_def Relay_def Let_def)


section \<open>Properties of the relay pool\<close>

lemma publish_each_map:
  "publish_each ctor net relays event =
     (map (\<lambda>(u, r). (u, fst (relay_publish ctor net r event))) relays,
      map (\<lambda>(u, r). catch (snd (relay_publish ctor net r event))
                        (\<lambda>err. Obj [(''relay'', Str (url r)), (''error'', err)])) relays)"
  by (induction relays) (auto simp: Let_def split: prod.splits)

lemma catch_not_rejected: "catch p h \<noteq> Rejects e"
  by (cases p) (simp_all add: catch_def)

lemma first_rejection_None: "(\<forall>p \<in> set ps. \<forall>e. p \<noteq> Rejects e) \<Longrightarrow> first_rejection ps = None"
  by (induction ps rule: first_rejection.induct) auto

lemma values_of_Never: "Never \<in> set ps \<Longrightarrow> values_of ps = None"
  by (induction ps rule: values_of.induct) auto

lemma values_of_all:
  "(\<forall>p \<in> set ps. \<exists>v. p = Resolves v) \<Longrightarrow>
   values_of ps = Some (map (\<lambda>p. case p of Resolves v \<Rightarrow> v) ps)"
  by (induction ps rule: values_of.induct) auto

lemma send_event_value: "snd (send_event r evt) = Resolves v \<Longrightarrow> v = Undefined"
  by (auto simp: send_event_def split: sum.splits)

lemma relay_publish_value: "snd (relay_publish ctor net r evt) = Resolves v \<Longrightarrow> v = Undefined"
  by (auto simp: relay_publish_def Let_def dest: send_event_value
      split: if_splits option.splits promise_state.splits net_answer.splits)

lemma caught_entry:
  assumes "snd (relay_publish ctor net r evt) \<noteq> Never"
  shows "catch (snd (relay_publish ctor net r evt)) (\<lambda>err. Obj [(''relay'', Str (url r)), (''error'', err)])
         = Resolves (entry_of r (snd (relay_publish ctor net r evt)))"
proof (cases "snd (relay_publish ctor net r evt)")
  case (Resolves v)
  then have "v = Undefined" by (rule relay_publish_value)
  with Resolves show ?thesis by (simp add: catch_def entry_of_def)
next
  case (Rejects e)
  then show ?thesis by (simp add: catch_def entry_of_def)
next
  case Never
  with assms show ?thesis by simp
qed

lemma caught_Never:
  "snd (relay_publish ctor net r evt) = Never \<Longrightarrow>
   catch (snd (relay_publish ctor net r evt)) h = Never"
  by (simp add: catch_def)

text \<open>
  Claim C8, as the code has it.  \<open>RelayPool.publish\<close> calls \<open>publish\<close> on every member
  connection, in the order of the pool, and every member is left in the state its own
  attempt leaves it in, whatever happens at the other members.  The promise returned is
  never rejected.  It stays unsettled as long as the attempt of some member is
  unsettled; otherwise it is fulfilled with an array of one entry per member, in the
  order of the pool: \<open>undefined\<close> for a member whose \<open>publish\<close> was fulfilled, and the
  object \<open>{relay: url, error: reason}\<close> for a member whose \<open>publish\<close> was rejected.  A
  failure names its relay; a success is told by its position only.
\<close>

theorem pool_publish_outcome:
  "pool_publish ctor net relays event =
     (map (\<lambda>(u, r). (u, fst (relay_publish ctor net r event))) relays,
      if \<exists>(u, r) \<in> set relays. snd (relay_publish ctor net r event) = Never then Never
      else Resolves (map (\<lambda>(u, r). entry_of r (snd (relay_publish ctor net r event))) relays))"
proof -
  let ?h = "\<lambda>r. (\<lambda>err. Obj [(''relay'', Str (url r)), (''error'', err)])"
  let ?ps = "map (\<lambda>(u, r). catch (snd (relay_publish ctor net r event)) (?h r)) relays"
  have fr: "first_rejection ?ps = None"
    by (rule first_rejection_None) (auto simp: catch_not_rejected)
  show ?thesis
  proof (cases "\<exists>(u, r) \<in> set relays. snd (relay_publish ctor net r event) = Never")
    case True
    then obtain u r where m: "(u, r) \<in> set relays" and n: "snd (relay_publish ctor net r event) = Never"
      by auto
    from m have "catch (snd (relay_publish ctor net r event)) (?h r) \<in> set ?ps" by force
    then have "Never \<in> set ?ps" using caught_Never[OF n] by simp
    then have "values_of ?ps = None" by (rule values_of_Never)
    with True fr show ?thesis
      by (simp add: pool_publish_def publish_each_map promise_all_def)
  next
    case False
    then have e: "?ps = map (\<lambda>(u, r). Resolves (entry_of r (snd (relay_publish ctor net r event)))) relays"
      by (auto simp: caught_entry)
    have "values_of ?ps = Some (map (\<lambda>(u, r). entry_of r (snd (relay_publish ctor net r event))) relays)"
      unfolding e by (subst values_of_all) (auto simp: comp_def split: prod.splits)
    with False fr show ?thesis
      by (simp add: pool_publish_def publish_each_map promise_all_def)
  qed
qed

text \<open>
  Three relays, the second unreachable: the promise is fulfilled with two successes and
  one failure, and the two entries of the successes are \<open>undefined\<close>, with no relay in
  them.
\<close>

theorem pool_publish_success_is_undefined:
  "snd (pool_publish fresh_socket b_is_down three_relays (Str ''note'')) =
     Resolves
       [Undefined,
        Obj [(''relay'', Str ''wss://b.example''), (''error'', Str ''unreachable'')],
        Undefined]"
  by (simp add: pool_publish_def three_relays_def Relay_def relay_publish_def connect_def
      fresh_socket_def b_is_down_def on_open_def on_error_def send_event_def relay_send_def
      ws_send_def catch_def promise_all_def Let_def)


section \<open>Properties of sortEvents\<close>

lemma recency_order_key: "recency_order a b = (recency_key a \<le> recency_key b)"
  by (auto simp: recency_order_def recency_key_def)

lemma compare_events_key:
  assumes "collates_lexically lc S" "event_id a \<in> S" "event_id b \<in> S"
  shows "(compare_events lc a b \<le> 0) = (recency_key a \<le> recency_key b)"
  using assms by (auto simp: compare_events_def recency_key_def collates_lexically_def)

lemma insert_sorted_key:
  assumes "\<forall>y \<in> set ys. (c x y \<le> 0) = (f x \<le> f y)"
  shows "insert_sorted c x ys = insort_key f x ys"
  using assms by (induction ys) auto

lemma array_sort_key:
  assumes "\<forall>x \<in> set xs. \<forall>y \<in> set xs. (c x y \<le> 0) = (f x \<le> f y)"
  shows "array_sort c xs = sort_key f xs"
proof -
  have "set ys \<subseteq> set xs \<Longrightarrow> foldr (insert_sorted c) ys [] = foldr (insort_key f) ys []" for ys
  proof (induction ys)
    case Nil then show ?case by simp
  next
    case (Cons y ys)
    then have ih: "foldr (insert_sorted c) ys [] = foldr (insort_key f) ys []" by simp
    have "set (foldr (insort_key f) ys []) = set ys"
      using set_sort[of f ys] by (simp add: sort_key_def)
    with Cons.prems assms have "\<forall>z \<in> set (foldr (insort_key f) ys []). (c y z \<le> 0) = (f y \<le> f z)"
      by auto
    then have "insert_sorted c y (foldr (insort_key f) ys []) = insort_key f y (foldr (insort_key f) ys [])"
      by (rule insert_sorted_key)
    with ih show ?case by simp
  qed
  then show ?thesis by (simp add: array_sort_def sort_key_def)
qed

lemma sort_events_key:
  assumes "collates_lexically lc (event_id ` set es)"
  shows "array_sort (compare_events lc) es = sort_key recency_key es"
  by (rule array_sort_key) (use assms compare_events_key in blast)

lemma sorted_recency_key: "sorted (map recency_key ys) = sorted_wrt recency_order ys"
  by (simp add: sorted_map recency_order_key[abs_def])



text \<open>
  Claim C10.  \<open>sortEvents\<close> called on a reference to an array returns that very
  reference; the store afterwards holds the sorted elements at that reference, so the
  caller's array itself has been rearranged, and no other array has changed.  The
  array is then in the order of Claim C6 (under the same condition on the collation).
\<close>

theorem sortEvents_in_place:
  assumes "h a = Some es"
  shows "\<exists>h'. sortEvents lc h a = Inr (h', a) \<and>
           h' a = Some (array_sort (compare_events lc) es) \<and>
           (\<forall>b. b \<noteq> a \<longrightarrow> h' b = h b) \<and>
           (collates_lexically lc (event_id ` set es) \<longrightarrow>
              sorted_wrt recency_order (array_sort (compare_events lc) es))"
proof -
  have 1: "sortEvents lc h a = Inr (h(a \<mapsto> array_sort (compare_events lc) es), a)"
    using assms by (simp add: sortEvents_def)
  have 2: "collates_lexically lc (event_id ` set es) \<Longrightarrow>
      sorted_wrt recency_order (array_sort (compare_events lc) es)"
    by (simp add: sort_events_key sorted_recency_key[symmetric])
  show ?thesis using 1 2 by auto
qed

text \<open>The theorem at the four-event array.\<close>

theorem sortEvents_in_place_witness:
  "feed_store 0 = Some feed \<and>
   (\<exists>h'. sortEvents codeunit_compare feed_store 0 = Inr (h', 0) \<and>
         h' 0 = Some [ev ''a'' 7 ''two'', ev ''a'' 5 ''three'', ev ''b'' 5 ''one'',
                      ev ''b'' 5 ''four''] \<and>
         h' 1 = feed_store 1)"
proof -
  have a: "feed_store 0 = Some feed" by (simp add: feed_store_def)
  have c: "array_sort (compare_events codeunit_compare) feed =
     [ev ''a'' 7 ''two'', ev ''a'' 5 ''three'', ev ''b'' 5 ''one'', ev ''b'' 5 ''four'']"
    by (simp add: array_sort_def feed_def ev_def compare_events_def codeunit_compare_def
        less_char_def)
  from sortEvents_in_place[where h = feed_store and a = 0 and es = feed and lc = codeunit_compare, OF a]
  obtain h' where
    "sortEvents codeunit_compare feed_store 0 = Inr (h', 0)"
    "h' 0 = Some (array_sort (compare_events codeunit_compare) feed)"
    "\<forall>b. b \<noteq> 0 \<longrightarrow> h' b = feed_store b" by blast
  then show ?thesis using a c by auto
qed


section \<open>Properties of validation, signing and verification\<close>

lemma typeof_string: "(typeof x = ''string'') = (\<exists>s. x = Str s)" by (cases x) auto
lemma typeof_number: "(typeof x = ''number'') = (\<exists>n. x = Num n)" by (cases x) auto
lemma typeof_object: "(typeof x = ''object'') = (x = Null \<or> (\<exists>xs. x = Arr xs) \<or> (\<exists>ps. x = Obj ps))" by (cases x) auto

lemma tag_strings_iff: "tag_strings xs = (\<forall>x \<in> set xs. \<exists>s. x = Str s)"
  by (induction xs) (auto simp: typeof_string)

lemma tags_arrays_iff: "tags_arrays ts = (\<forall>t \<in> set ts. \<exists>xs. t = Arr xs \<and> (\<forall>x \<in> set xs. \<exists>s. x = Str s))"
  by (induction ts) (auto simp: tag_strings_iff split: jsval.splits)

lemma hex_lower_iff: "hex_lower c = (c \<in> set ''0123456789abcdef'')"
proof -
  define n :: nat where "n = of_char c"
  have c: "c = char_of n" by (simp add: n_def)
  have n: "n < 256" by (simp add: n_def)
  have "hex_lower c = ((97 \<le> n \<and> n \<le> 102) \<or> (48 \<le> n \<and> n \<le> 57))"
    by (simp add: hex_lower_def less_eq_char_def n_def)
  also have "\<dots> = (n \<in> {48, 49, 50, 51, 52, 53, 54, 55, 56, 57, 97, 98, 99, 100, 101, 102})"
    by (simp; arith)
  also have "\<dots> = (char_of n \<in> set ''0123456789abcdef'')"
  proof -
    have "take_bit 8 n = n" using n by (simp add: take_bit_nat_eq_self)
    then show ?thesis by (auto simp: char_of_eq_iff)
  qed
  finally show ?thesis by (simp add: c)
qed

lemma validateEvent_Obj:
  "validateEvent (Obj ps) =
     Inr (typeof (lookup ps ''kind'') = ''number'' \<and> typeof (lookup ps ''content'') = ''string'' \<and>
          typeof (lookup ps ''created_at'') = ''number'' \<and>
          (\<exists>s. lookup ps ''pubkey'' = Str s \<and> match_hex64 s) \<and>
          (\<exists>ts. lookup ps ''tags'' = Arr ts \<and> tags_arrays ts))"
  by (auto simp: validateEvent_def bind_err_def split: jsval.splits)

lemma validateEvent_not_Obj:
  "v \<noteq> Null \<Longrightarrow> \<forall>ps. v \<noteq> Obj ps \<Longrightarrow> validateEvent v = Inr False"
  by (cases v) (auto simp: validateEvent_def bind_err_def)

lemma validateEvent_returns: "v \<noteq> Null \<Longrightarrow> \<exists>b. validateEvent v = Inr b"
  by (cases "\<exists>ps. v = Obj ps") (auto simp: validateEvent_Obj validateEvent_not_Obj)

text \<open>
  Claim C3, as the code has it.  On every value other than \<open>null\<close>, \<open>validateEvent\<close>
  returns a boolean and throws nothing.  The boolean is true exactly when the value is an
  object whose \<open>kind\<close> is a number, whose \<open>content\<close> is a string, whose \<open>created_at\<close>
  is a number, whose \<open>pubkey\<close> is a string of exactly 64 characters from
  \<open>0123456789abcdef\<close>, and whose \<open>tags\<close> is an array of arrays of strings; so it is
  false on each of these violations.  The two numeric fields are tested with \<open>typeof\<close>
  only: any number passes, integer or not.
\<close>

theorem validateEvent_structural:
  "v \<noteq> Null \<Longrightarrow>
   validateEvent v =
     Inr (typeof v = ''object'' \<and>
          (\<exists>k c t p ts.
             get_prop v ''kind'' = Inr (Num k) \<and> get_prop v ''content'' = Inr (Str c) \<and>
             get_prop v ''created_at'' = Inr (Num t) \<and>
             get_prop v ''pubkey'' = Inr (Str p) \<and> length p = 64 \<and>
             set p \<subseteq> set ''0123456789abcdef'' \<and>
             get_prop v ''tags'' = Inr (Arr ts) \<and>
             (\<forall>tag \<in> set ts. \<exists>xs. tag = Arr xs \<and> (\<forall>x \<in> set xs. \<exists>s. x = Str s))))"
proof (cases v)
  case (Obj ps)
  have m: "match_hex64 s = (length s = 64 \<and> set s \<subseteq> set ''0123456789abcdef'')" for s
    unfolding match_hex64_def list_all_iff hex_lower_iff by blast
  show ?thesis
    unfolding Obj validateEvent_Obj
    by (simp add: typeof_number typeof_string m tags_arrays_iff del: set_simps) blast
next
  case (Arr xs)
  then show ?thesis by (simp add: validateEvent_not_Obj)
qed (simp_all add: validateEvent_not_Obj)

text \<open>The theorem at the event without properties.\<close>

theorem validateEvent_structural_witness:
  "empty_event \<noteq> Null \<and> validateEvent empty_event = Inr False"
  using validateEvent_structural[of empty_event] by (simp add: empty_event_def lookup_def)

text \<open>An event whose \<open>kind\<close> is the number 3/2, not an integer, passes the validation.\<close>

theorem validateEvent_accepts_fractional_kind:
  "get_prop fractional_kind_event ''kind'' = Inr (Num (Finite (3 / 2))) \<and>
   (3 / 2 :: rat) \<notin> \<int> \<and>
   validateEvent fractional_kind_event = Inr True"
proof -
  have "(3 / 2 :: rat) \<notin> \<int>"
  proof
    assume "(3 / 2 :: rat) \<in> \<int>"
    then obtain i :: int where "(3 / 2 :: rat) = of_int i" by (auto elim: Ints_cases)
    then have "(3 :: rat) = of_int (2 * i)" by simp
    then have "(3 :: int) = 2 * i" by (metis of_int_eq_iff of_int_numeral)
    then show False by presburger
  qed
  then show ?thesis
    by (simp add: validateEvent_Obj fractional_kind_event_def lookup_def match_hex64_def hex_lower_def less_eq_char_def list_all_iff)
qed

text \<open>On \<open>null\<close> itself the first property read throws: \<open>typeof null\<close> is \<open>object\<close>.\<close>

lemma validateEvent_null_throws: "validateEvent Null = Inl TypeError"
  by (simp add: validateEvent_def bind_err_def)

lemma serialize_valid:
  assumes "validateEvent (Obj ps) = Inr True"
  shows "getEventHash H (Obj ps) =
     Inr (bytesToHex H (sha256 H (utf8_encode H (json_stringify H
        (Arr [Num (Finite 0), lookup ps ''pubkey'', lookup ps ''created_at'', lookup ps ''kind'',
              lookup ps ''tags'', lookup ps ''content''])))))"
  using assms by (simp add: getEventHash_def serializeEvent_def bind_err_def)

lemma valid_is_Obj: "validateEvent v = Inr True \<Longrightarrow> \<exists>ps. v = Obj ps"
  by (cases v) (auto simp: validateEvent_def bind_err_def)

lemma hash_invalid:
  assumes "v \<noteq> Null" "validateEvent v \<noteq> Inr True"
  shows "getEventHash H v = Inl (Error ''Can't serialize event with wrong or missing properties'')"
proof -
  from validateEvent_returns[OF assms(1)] assms(2) have "validateEvent v = Inr False"
    by auto
  then show ?thesis by (simp add: getEventHash_def serializeEvent_def bind_err_def)
qed

text \<open>
  Claim C4, as the code has it.  On every value that passes \<open>validateEvent\<close>,
  \<open>verifyEvent\<close> returns a boolean and throws nothing: false when the recomputed hash is
  not the stored \<open>id\<close>, false when \<open>schnorr.verify\<close> throws, and otherwise what
  \<open>schnorr.verify\<close> answers; so it is true exactly when the hash is the stored \<open>id\<close> and
  the signature check answers true.  On a value other than \<open>null\<close> that fails
  \<open>validateEvent\<close>, the hash is recomputed outside the \<open>try\<close> block and \<open>verifyEvent\<close>
  throws the error of \<open>serializeEvent\<close>.
\<close>

theorem verifyEvent_result:
  assumes "v \<noteq> Null"
  shows "verifyEvent H v =
     (if validateEvent v = Inr True
      then Inr (\<exists>h sg p. getEventHash H v = Inr h \<and> get_prop v ''id'' = Inr (Str h) \<and>
                  get_prop v ''sig'' = Inr sg \<and> get_prop v ''pubkey'' = Inr p \<and>
                  schnorr_verify H sg h p = Inr True)
      else Inl (Error ''Can't serialize event with wrong or missing properties''))"
proof (cases "validateEvent v = Inr True")
  case True
  then obtain ps where v: "v = Obj ps" using valid_is_Obj by blast
  from serialize_valid[OF True[unfolded v], of H] obtain h where h: "getEventHash H (Obj ps) = Inr h" by blast
  show ?thesis using True unfolding v
    by (auto simp: verifyEvent_def h bind_err_def split: sum.splits)
next
  case False
  with hash_invalid[OF assms False, of H] show ?thesis by (simp add: verifyEvent_def bind_err_def)
qed

text \<open>The theorem at the signed event of the stand-in host.\<close>

theorem verifyEvent_result_witness:
  "demo_signed \<noteq> Null \<and> verifyEvent demo_host demo_signed = Inr True"
proof -
  have v: "validateEvent demo_signed = Inr True"
    by (simp add: demo_signed_def validateEvent_Obj lookup_def match_hex64_def list_all_iff hex_lower_iff)
  have h: "getEventHash demo_host demo_signed = Inr ''a8''"
    unfolding demo_signed_def
    by (simp add: serialize_valid[OF v[unfolded demo_signed_def]] lookup_def demo_host_def demo_stringify_def hex_pair_def)
  have s: "schnorr_verify demo_host (Str ''07070707070707070707070707070707070707070707070707070707070707076138'') ''a8'' (Str ''0707070707070707070707070707070707070707070707070707070707070707'') = Inr True"
    by (simp add: demo_host_def demo_verify_def hex_pair_def)
  have g: "get_prop demo_signed ''id'' = Inr (Str ''a8'')"
    "get_prop demo_signed ''sig'' = Inr (Str ''07070707070707070707070707070707070707070707070707070707070707076138'')"
    "get_prop demo_signed ''pubkey'' = Inr (Str ''0707070707070707070707070707070707070707070707070707070707070707'')"
    by (simp_all add: demo_signed_def lookup_def)
  have n: "demo_signed \<noteq> Null" by (simp add: demo_signed_def)
  from verifyEvent_result[OF n, of demo_host] show ?thesis using n v h s g by simp
qed

text \<open>A malformed event, an object without any property: \<open>verifyEvent\<close> throws.\<close>

theorem verifyEvent_throws_on_malformed:
  "verifyEvent demo_host empty_event =
     Inl (Error ''Can't serialize event with wrong or missing properties'')"
  by (simp add: verifyEvent_def getEventHash_def serializeEvent_def validateEvent_def
      bind_err_def lookup_def empty_event_def)

lemma lookup_update: "lookup (AList.update k v ps) k' = (if k' = k then v else lookup ps k')"
  by (simp add: lookup_def update_conv')

lemma validate_pubkey_swap:
  assumes "validateEvent (Obj (AList.update ''pubkey'' (Str p) ps)) = Inr True" "match_hex64 q"
  shows "validateEvent (Obj (AList.update ''pubkey'' (Str q) ps)) = Inr True"
  using assms by (simp add: validateEvent_Obj lookup_update)

lemma validate_extra:
  assumes "validateEvent (Obj ps) = Inr True" "k \<notin> {''kind'', ''content'', ''created_at'', ''pubkey'', ''tags''}"
  shows "validateEvent (Obj (AList.update k x ps)) = Inr True"
  using assms by (auto simp: validateEvent_Obj lookup_update)

lemma hash_extra:
  assumes "validateEvent (Obj ps) = Inr True" "k \<notin> {''kind'', ''content'', ''created_at'', ''pubkey'', ''tags''}"
  shows "getEventHash H (Obj (AList.update k x ps)) = getEventHash H (Obj ps)"
proof -
  have "lookup (AList.update k x ps) f = lookup ps f"
    if "f \<in> {''kind'', ''content'', ''created_at'', ''pubkey'', ''tags''}" for f
    using that assms(2) by (auto simp: lookup_update)
  then show ?thesis
    by (simp add: serialize_valid[OF assms(1)] serialize_valid[OF validate_extra[OF assms]])
qed

text \<open>
  Claim C1.  For a template whose fields pass the structural validation, a valid secret
  key and whatever randomness the signing draws, \<open>finalizeEvent\<close> returns an event and
  \<open>verifyEvent\<close> returns true on it, given that the Schnorr library is correct (a
  signature it makes under a key verifies under that key's public key).
\<close>

theorem finalize_then_verify:
  assumes t: "template_fields_valid t" and k: "valid_secret_key H sk" and c: "schnorr_correct H"
  shows "\<exists>e. finalizeEvent H aux t sk = Inr e \<and> verifyEvent H e = Inr True"
proof -
  from k obtain pk where pk: "schnorr_getPublicKey H sk = Inr pk" and hx: "match_hex64 (bytesToHex H pk)"
    by (auto simp: valid_secret_key_def)
  let ?ev = "AList.update ''pubkey'' (Str (bytesToHex H pk)) (spread t)"
  have v0: "validateEvent (Obj ?ev) = Inr True"
    using t hx unfolding template_fields_valid_def by (rule validate_pubkey_swap)
  from serialize_valid[OF v0, of H] obtain h where h: "getEventHash H (Obj ?ev) = Inr h" by blast
  from c pk obtain sg where sg: "schnorr_sign H aux h sk = Inr sg"
    and ok: "schnorr_verify H (Str (bytesToHex H sg)) h (Str (bytesToHex H pk)) = Inr True"
    unfolding schnorr_correct_def by blast
  let ?e1 = "AList.update ''id'' (Str h) ?ev"
  let ?e2 = "AList.update ''sig'' (Str (bytesToHex H sg)) ?e1"
  have fin: "finalizeEvent H aux t sk = Inr (Obj ?e2)"
    by (simp add: finalizeEvent_def bind_err_def pk h sg Let_def)
  have v1: "validateEvent (Obj ?e1) = Inr True" by (rule validate_extra[OF v0]) simp
  have h1: "getEventHash H (Obj ?e1) = Inr h" using hash_extra[OF v0, of "''id''" H] h by simp
  have h2: "getEventHash H (Obj ?e2) = Inr h" using hash_extra[OF v1, of "''sig''" H] h1 by simp
  have g: "get_prop (Obj ?e2) ''id'' = Inr (Str h)" "get_prop (Obj ?e2) ''sig'' = Inr (Str (bytesToHex H sg))"
     "get_prop (Obj ?e2) ''pubkey'' = Inr (Str (bytesToHex H pk))"
    by (simp_all add: lookup_update)
  have "verifyEvent H (Obj ?e2) = Inr True"
    unfolding verifyEvent_def h2 g by (simp add: bind_err_def ok)
  with fin show ?thesis by blast
qed

lemma demo_correct: "schnorr_correct demo_host"
  by (simp add: schnorr_correct_def demo_host_def demo_verify_def)

lemma demo_key_ok: "valid_secret_key demo_host demo_key"
proof -
  have 1: "schnorr_getPublicKey demo_host demo_key = Inr demo_key"
    by (simp add: demo_host_def demo_key_def)
  have 2: "match_hex64 (bytesToHex demo_host demo_key)"
    by code_simp
  show ?thesis unfolding valid_secret_key_def using 1 2 by blast
qed

lemma demo_template_ok: "template_fields_valid demo_template"
  by (simp add: template_fields_valid_def demo_template_def validateEvent_Obj lookup_def match_hex64_def list_all_iff hex_lower_iff)


text \<open>The theorem at the stand-in host; the event it builds there is \<open>demo_signed\<close>.\<close>

theorem finalize_then_verify_witness:
  "template_fields_valid demo_template \<and> valid_secret_key demo_host demo_key \<and>
   schnorr_correct demo_host \<and>
   (\<exists>e. finalizeEvent demo_host [] demo_template demo_key = Inr e \<and>
        verifyEvent demo_host e = Inr True)"
  using finalize_then_verify[OF demo_template_ok demo_key_ok demo_correct, of "[]"]
    demo_template_ok demo_key_ok demo_correct
  by blast

lemma finalizeEvent_demo: "finalizeEvent demo_host [] demo_template demo_key = Inr demo_signed"
  by code_simp


section \<open>Properties of the bech32 codec\<close>

subsection \<open>The 32-bit operators on small numbers\<close>

lemma to_int32_take_bit: "n \<le> 32 \<Longrightarrow> take_bit n (to_int32 x) = take_bit n x"
  by (simp add: to_int32_def take_bit_signed_take_bit)

lemma to_int32_id: "- (2 ^ 31) \<le> x \<Longrightarrow> x < 2 ^ 31 \<Longrightarrow> to_int32 x = x"
  unfolding to_int32_def by (rule signed_take_bit_int_eq_self) simp_all

lemma to_int32_small: "0 \<le> x \<Longrightarrow> x < 2 ^ 31 \<Longrightarrow> to_int32 x = x"
  by (rule to_int32_id) auto

lemma to_int32_range: "- (2 ^ 31) \<le> to_int32 x \<and> to_int32 x < 2 ^ 31"
  unfolding to_int32_def
  using signed_take_bit_int_greater_eq_minus_exp[of 31 x] signed_take_bit_int_less_exp[of 31 x] by simp

lemma maxv5: "js_shl 1 5 - 1 = 31" by (simp add: js_shl_def to_int32_def)
lemma maxv8: "js_shl 1 8 - 1 = 255" by (simp add: js_shl_def to_int32_def)

text \<open>and with a mask\<close>
lemma js_and_mask:
  assumes "t < 31"
  shows "js_and x (2 ^ t - 1) = take_bit t x"
proof -
  have m: "(2 ^ t - 1 :: int) = mask t" by (simp add: mask_eq_exp_minus_1)
  have "(2::int) ^ t \<le> 2 ^ 30" using assms by (intro power_increasing) auto
  then have "to_int32 (mask t) = (mask t :: int)"
    by (intro to_int32_small) (auto simp: mask_eq_exp_minus_1)
  then have "js_and x (2 ^ t - 1) = take_bit t (to_int32 x)"
    by (simp add: js_and_def m take_bit_eq_mask)
  also have "\<dots> = take_bit t x" using assms by (simp add: to_int32_take_bit)
  finally show ?thesis .
qed

lemma js_sar_take:
  assumes "b < 32" "t + b \<le> 32"
  shows "take_bit t (js_sar x (int b)) = take_bit t (drop_bit b x)"
proof -
  have "take_bit t (js_sar x (int b)) = take_bit t (drop_bit b (to_int32 x))"
    using assms by (simp add: js_sar_def)
  also have "\<dots> = drop_bit b (take_bit (t + b) (to_int32 x))"
    by (simp add: take_bit_drop_bit add.commute)
  also have "\<dots> = drop_bit b (take_bit (t + b) x)"
    using assms by (simp add: to_int32_take_bit)
  also have "\<dots> = take_bit t (drop_bit b x)"
    by (simp add: take_bit_drop_bit add.commute)
  finally show ?thesis .
qed

lemma js_shl_take:
  assumes "n < 32" "t \<le> 32"
  shows "take_bit t (js_shl x (int n)) = take_bit t (push_bit n x)"
proof -
  have "take_bit t (js_shl x (int n)) = take_bit t (push_bit n (to_int32 x))"
    using assms by (simp add: js_shl_def to_int32_take_bit)
  also have "\<dots> = take_bit t (push_bit n x)"
    using assms by (simp add: take_bit_push_bit to_int32_take_bit)
  finally show ?thesis .
qed

lemma js_or_take:
  assumes "t \<le> 32"
  shows "take_bit t (js_or x y) = take_bit t x OR take_bit t y"
  using assms by (simp add: js_or_def take_bit_or to_int32_take_bit)

lemma js_sar_small:
  assumes "0 \<le> v" "v < 2 ^ f" "f \<le> 8"
  shows "js_sar v (int f) = 0"
proof -
  have "(2::int) ^ f \<le> 2 ^ 8" using assms(3) by (intro power_increasing) auto
  then have "v < 2 ^ 31" using assms(2) by simp
  then have "to_int32 v = v" using assms(1) by (simp add: to_int32_small)
  then show ?thesis using assms by (simp add: js_sar_def drop_bit_eq_div)
qed

subsection \<open>Regrouping bits\<close>

lemma groups_simps [simp]:
  "groups w []" "groups w (x # xs) = (0 \<le> x \<and> x < 2 ^ w \<and> groups w xs)"
  "groups w (xs @ ys) = (groups w xs \<and> groups w ys)"
  by (auto simp: groups_def)

lemma digits_value_snoc: "digits_value w (xs @ [y]) = digits_value w xs * 2 ^ w + y"
  by (induction xs) (simp_all add: algebra_simps power_add)

lemma digits_value_append:
  "digits_value w (xs @ ys) = digits_value w xs * 2 ^ (w * length ys) + digits_value w ys"
  by (induction xs) (simp_all add: algebra_simps power_add)

lemma digits_value_bounds:
  "groups w xs \<Longrightarrow> 0 \<le> digits_value w xs \<and> digits_value w xs < 2 ^ (w * length xs)"
proof (induction xs)
  case Nil then show ?case by simp
next
  case (Cons x xs)
  then have x: "0 \<le> x" "x + 1 \<le> 2 ^ w" and ih: "0 \<le> digits_value w xs" "digits_value w xs < 2 ^ (w * length xs)"
    by auto
  have "x * 2 ^ (w * length xs) + digits_value w xs < (x + 1) * 2 ^ (w * length xs)"
    using ih by (simp add: algebra_simps)
  also have "\<dots> \<le> 2 ^ w * 2 ^ (w * length xs)"
    using x by (intro mult_right_mono) auto
  finally show ?case using x ih by (simp add: power_add)
qed

lemma digits_value_inj:
  "length xs = length ys \<Longrightarrow> groups w xs \<Longrightarrow> groups w ys \<Longrightarrow>
   digits_value w xs = digits_value w ys \<Longrightarrow> xs = ys"
proof (induction xs ys rule: list_induct2)
  case Nil then show ?case by simp
next
  case (Cons x xs y ys)
  let ?m = "(2::int) ^ (w * length xs)"
  from Cons have bx: "0 \<le> digits_value w xs" "digits_value w xs < ?m"
    and by': "0 \<le> digits_value w ys" "digits_value w ys < ?m"
    using digits_value_bounds[of w xs] digits_value_bounds[of w ys] by auto
  from Cons.prems(3) Cons.hyps have e: "x * ?m + digits_value w xs = y * ?m + digits_value w ys"
    by simp
  have "(x * ?m + digits_value w xs) div ?m = x" using bx by simp
  moreover have "(y * ?m + digits_value w ys) div ?m = y" using by' by simp
  ultimately have "x = y" using e by simp
  with e have "digits_value w xs = digits_value w ys" by simp
  with Cons \<open>x = y\<close> show ?case by simp
qed

lemma take_bit_le_eq:
  fixes a b :: int
  assumes "take_bit n a = take_bit n b" "m \<le> n"
  shows "take_bit m a = take_bit m b"
proof -
  have "take_bit m (take_bit n a) = take_bit m (take_bit n b)" using assms(1) by simp
  then show ?thesis using assms(2) by (simp add: min_def)
qed

lemma pushed_group:
  assumes "take_bit 32 acc = take_bit 32 A" "0 < t" "t \<le> 8" "b \<le> 16"
  shows "js_and (js_sar acc (int b)) (2 ^ t - 1) = take_bit t (drop_bit b A)"
proof -
  have "js_and (js_sar acc (int b)) (2 ^ t - 1) = take_bit t (js_sar acc (int b))"
    using assms by (intro js_and_mask) simp
  also have "\<dots> = take_bit t (drop_bit b acc)"
    using assms by (intro js_sar_take) simp_all
  also have "\<dots> = drop_bit b (take_bit (t + b) acc)"
    by (simp add: take_bit_drop_bit add.commute)
  also have "take_bit (t + b) acc = take_bit (t + b) A"
    using assms by (intro take_bit_le_eq[OF assms(1)]) simp
  also have "drop_bit b (take_bit (t + b) A) = take_bit t (drop_bit b A)"
    by (simp add: take_bit_drop_bit add.commute)
  finally show ?thesis .
qed

lemma split_group:
  fixes A :: int
  assumes "t \<le> n"
  shows "drop_bit n A * 2 ^ t + take_bit t (drop_bit (n - t) A) = drop_bit (n - t) A"
proof -
  have 1: "drop_bit n A = drop_bit t (drop_bit (n - t) A)" using assms by (simp add: drop_bit_drop_bit)
  have 2: "drop_bit t X * 2 ^ t + take_bit t X = X" for X :: int
    using div_mult_mod_eq[of X "2 ^ t"] by (simp add: drop_bit_eq_div take_bit_eq_mod)
  show ?thesis unfolding 1 by (rule 2)
qed

lemma drain_inv:
  assumes "0 < t" "t \<le> 8" "take_bit 32 acc = take_bit 32 A"
  shows "bits \<le> 16 \<Longrightarrow> drop_bit bits A = digits_value t res \<Longrightarrow> groups t res \<Longrightarrow>
    \<exists>bits' res'. drain t (2 ^ t - 1) acc bits res = (bits', res') \<and> bits' < t \<and>
       drop_bit bits' A = digits_value t res' \<and> groups t res' \<and>
       t * length res' + bits' = t * length res + bits"
proof (induction bits arbitrary: res rule: less_induct)
  case (less bits)
  show ?case
  proof (cases "t \<le> bits")
    case False
    then show ?thesis using less.prems by (simp add: drain.simps[of t _ acc bits res])
  next
    case True
    let ?b = "bits - t"
    let ?d = "js_and (js_sar acc (int ?b)) (2 ^ t - 1)"
    have d: "?d = take_bit t (drop_bit ?b A)"
      using assms less.prems(1) by (intro pushed_group) simp_all
    have v: "digits_value t (res @ [?d]) = drop_bit ?b A"
      using split_group[OF True, of A] less.prems(2) by (simp add: digits_value_snoc d)
    have g: "groups t (res @ [?d])"
      using less.prems(3) by (simp add: d)
    have lt: "?b < bits" using True assms(1) by simp
    have b16: "?b \<le> 16" using less.prems(1) by simp
    from less.IH[OF lt b16 v[symmetric] g]
    obtain bits' res' where r: "drain t (2 ^ t - 1) acc ?b (res @ [?d]) = (bits', res')"
      "bits' < t" "drop_bit bits' A = digits_value t res'" "groups t res'"
      "t * length res' + bits' = t * length (res @ [?d]) + ?b" by blast
    have "drain t (2 ^ t - 1) acc bits res = (bits', res')"
      using True assms(1) r(1) by (simp add: drain.simps[of t _ acc bits res])
    moreover have "t * length res' + bits' = t * length res + bits"
      using r(5) True by simp
    ultimately show ?thesis using r by blast
  qed
qed

lemma or_low:
  fixes A v :: int
  assumes "0 \<le> v" "v < 2 ^ f"
  shows "push_bit f A OR v = A * 2 ^ f + v"
proof -
  have v: "v = take_bit f v" using assms by (simp add: take_bit_int_eq_self)
  have "push_bit f A + take_bit f v = push_bit f A OR take_bit f v"
    by (rule disjunctive_add) (auto simp: bit_simps)
  then show ?thesis using v by (simp add: push_bit_eq_mult)
qed

lemma acc_step:
  assumes "take_bit 32 acc = take_bit 32 A" "0 \<le> v" "v < 2 ^ f" "f \<le> 8"
  shows "take_bit 32 (js_or (js_shl acc (int f)) v) = take_bit 32 (A * 2 ^ f + v)"
proof -
  have "take_bit 32 (js_shl acc (int f)) = take_bit 32 (push_bit f acc)"
    using assms(4) by (intro js_shl_take) simp_all
  also have "\<dots> = push_bit f (take_bit (32 - f) acc)" by (simp add: take_bit_push_bit)
  also have "take_bit (32 - f) acc = take_bit (32 - f) A"
    by (rule take_bit_le_eq[OF assms(1)]) simp
  also have "push_bit f (take_bit (32 - f) A) = take_bit 32 (push_bit f A)"
    by (simp add: take_bit_push_bit)
  finally have "take_bit 32 (js_or (js_shl acc (int f)) v) = take_bit 32 (push_bit f A OR v)"
    by (simp add: js_or_take)
  then show ?thesis using or_low[OF assms(2,3)] by simp
qed

lemma drop_step:
  fixes A v :: int
  assumes "0 \<le> v" "v < 2 ^ f"
  shows "drop_bit (bits + f) (A * 2 ^ f + v) = drop_bit bits A"
proof -
  have "(A * 2 ^ f + v) div 2 ^ f = A" using assms by simp
  then have "drop_bit f (A * 2 ^ f + v) = A" by (simp add: drop_bit_eq_div)
  moreover have "drop_bit (bits + f) (A * 2 ^ f + v) = drop_bit bits (drop_bit f (A * 2 ^ f + v))"
    by (simp add: drop_bit_drop_bit add.commute)
  ultimately show ?thesis by simp
qed

lemma convert_loop_inv:
  assumes "0 < t" "t \<le> 8" "f \<le> 8"
  shows "groups f data \<Longrightarrow> take_bit 32 acc = take_bit 32 A \<Longrightarrow> bits < t \<Longrightarrow>
    drop_bit bits A = digits_value t res \<Longrightarrow> groups t res \<Longrightarrow>
    \<exists>acc' bits' res'.
       convert_loop f t (2 ^ t - 1) data acc bits res = Inr (acc', bits', res') \<and>
       take_bit 32 acc' = take_bit 32 (A * 2 ^ (f * length data) + digits_value f data) \<and>
       bits' < t \<and>
       drop_bit bits' (A * 2 ^ (f * length data) + digits_value f data) = digits_value t res' \<and>
       groups t res' \<and>
       t * length res' + bits' = t * length res + bits + f * length data"
proof (induction data arbitrary: acc A bits res)
  case Nil
  then show ?case by simp
next
  case (Cons v vs)
  from Cons.prems(1) have v: "0 \<le> v" "v < 2 ^ f" and vs: "groups f vs" by simp_all
  let ?A1 = "A * 2 ^ f + v"
  let ?acc1 = "js_or (js_shl acc (int f)) v"
  have a1: "take_bit 32 ?acc1 = take_bit 32 ?A1"
    using Cons.prems(2) v assms(3) by (rule acc_step)
  have d1: "drop_bit (bits + f) ?A1 = digits_value t res"
    using drop_step[OF v, of bits A] Cons.prems(4) by simp
  have b1: "bits + f \<le> 16" using Cons.prems(3) assms by simp
  from drain_inv[OF assms(1,2) a1 b1 d1 Cons.prems(5)]
  obtain bits1 res1 where dr: "drain t (2 ^ t - 1) ?acc1 (bits + f) res = (bits1, res1)"
    and r1: "bits1 < t" "drop_bit bits1 ?A1 = digits_value t res1" "groups t res1"
      "t * length res1 + bits1 = t * length res + (bits + f)" by blast
  from Cons.IH[OF vs a1 r1(1,2,3)]
  obtain acc' bits' res' where
    l: "convert_loop f t (2 ^ t - 1) vs ?acc1 bits1 res1 = Inr (acc', bits', res')" and
    r: "take_bit 32 acc' = take_bit 32 (?A1 * 2 ^ (f * length vs) + digits_value f vs)"
       "bits' < t"
       "drop_bit bits' (?A1 * 2 ^ (f * length vs) + digits_value f vs) = digits_value t res'"
       "groups t res'"
       "t * length res' + bits' = t * length res1 + bits1 + f * length vs" by blast
  have e: "?A1 * 2 ^ (f * length vs) + digits_value f vs =
           A * 2 ^ (f * length (v # vs)) + digits_value f (v # vs)"
    by (simp add: algebra_simps power_add)
  have c: "convert_loop f t (2 ^ t - 1) (v # vs) acc bits res = Inr (acc', bits', res')"
    using v assms(3) l dr by (simp add: js_sar_small)
  have n: "t * length res' + bits' = t * length res + bits + f * length (v # vs)"
    using r(5) r1(4) by simp
  show ?case using c r(1-4) n unfolding e by blast
qed

lemma maxv_eq: "t \<le> 8 \<Longrightarrow> js_shl 1 (int t) - 1 = 2 ^ t - 1"
proof -
  assume t: "t \<le> 8"
  then have "(2::int) ^ t \<le> 2 ^ 8" by (intro power_increasing) auto
  then have "to_int32 (2 ^ t) = (2 ^ t :: int)" by (intro to_int32_small) auto
  moreover have "to_int32 1 = 1" by (simp add: to_int32_def)
  ultimately show ?thesis using t by (simp add: js_shl_def push_bit_eq_mult)
qed

lemma pad_group:
  assumes "take_bit 32 acc = take_bit 32 A" "b \<le> t" "t \<le> 8" "0 < t"
  shows "js_and (js_shl acc (int t - int b)) (2 ^ t - 1) = push_bit (t - b) (take_bit b A)"
proof -
  have i: "int t - int b = int (t - b)" using assms(2) by simp
  have "js_and (js_shl acc (int t - int b)) (2 ^ t - 1) = take_bit t (js_shl acc (int (t - b)))"
    unfolding i using assms by (intro js_and_mask) simp
  also have "\<dots> = take_bit t (push_bit (t - b) acc)"
    using assms by (intro js_shl_take) simp_all
  also have "\<dots> = push_bit (t - b) (take_bit b acc)"
    using assms(2) by (simp add: take_bit_push_bit)
  also have "take_bit b acc = take_bit b A"
    using assms by (intro take_bit_le_eq[OF assms(1)]) simp
  finally show ?thesis .
qed

lemma pad_value:
  fixes D :: int
  assumes "b < t"
  shows "0 \<le> push_bit (t - b) (take_bit b D)"
    and "push_bit (t - b) (take_bit b D) < 2 ^ t"
    and "drop_bit b D * 2 ^ t + push_bit (t - b) (take_bit b D) = D * 2 ^ (t - b)"
proof -
  define q where "q = take_bit b D"
  define E where "E = drop_bit b D"
  define P :: int where "P = 2 ^ b"
  define K :: int where "K = 2 ^ (t - b)"
  have PK: "P * K = 2 ^ t" using assms by (simp add: P_def K_def flip: power_add)
  have q: "0 \<le> q" "q < P" by (simp_all add: q_def P_def)
  have K: "0 < K" by (simp add: K_def)
  have D: "D = E * P + q"
    using div_mult_mod_eq[of D "2 ^ b"] by (simp add: E_def P_def q_def drop_bit_eq_div take_bit_eq_mod)
  have pk: "push_bit (t - b) (take_bit b D) = q * K"
    by (simp add: push_bit_eq_mult q_def K_def)
  show "0 \<le> push_bit (t - b) (take_bit b D)" unfolding pk using q K by simp
  have "q * K < P * K" using q K by (intro mult_strict_right_mono) auto
  then show "push_bit (t - b) (take_bit b D) < 2 ^ t" unfolding pk PK .
  have "E * (P * K) + q * K = (E * P + q) * K" by (simp add: algebra_simps)
  then show "drop_bit b D * 2 ^ t + push_bit (t - b) (take_bit b D) = D * 2 ^ (t - b)"
    unfolding pk PK[symmetric] D[symmetric] E_def[symmetric] K_def[symmetric] by simp
qed

lemma convertBits_pad:
  assumes "groups 8 data"
  shows "\<exists>enc p. convertBits data 8 5 True = Inr enc \<and> groups 5 enc \<and> p < 5 \<and>
           digits_value 5 enc = digits_value 8 data * 2 ^ p \<and>
           5 * length enc = 8 * length data + p"
proof -
  define D where "D = digits_value 8 data"
  from convert_loop_inv[of 5 8 data 0 0 0 "[]"] assms
  obtain acc bits res where
    l: "convert_loop 8 5 (2 ^ 5 - 1) data 0 0 [] = Inr (acc, bits, res)" and
    r: "take_bit 32 acc = take_bit 32 D" "bits < 5" "drop_bit bits D = digits_value 5 res"
       "groups 5 res" "5 * length res + bits = 8 * length data"
    unfolding D_def by auto
  have m: "js_shl 1 (int 5) - 1 = 2 ^ 5 - 1" by (rule maxv_eq) simp
  show ?thesis
  proof (cases "bits > 0")
    case False
    then have "convertBits data 8 5 True = Inr res"
      using l m by (simp add: convertBits_def bind_err_def)
    moreover have "digits_value 5 res = D * 2 ^ 0" using r(3) False by simp
    moreover have "5 * length res = 8 * length data + 0" using r(5) False by simp
    ultimately show ?thesis using r(4) unfolding D_def by (intro exI[of _ res] exI[of _ 0]) simp
  next
    case True
    define pad where "pad = js_and (js_shl acc (int 5 - int bits)) (2 ^ 5 - 1)"
    have pd: "pad = push_bit (5 - bits) (take_bit bits D)"
      unfolding pad_def using r(1,2) by (intro pad_group) simp_all
    have c: "convertBits data 8 5 True = Inr (res @ [pad])"
      using l m True by (simp add: convertBits_def bind_err_def pad_def)
    have g: "groups 5 (res @ [pad])"
      using r(4) pad_value(1,2)[OF r(2), of D] by (simp add: pd)
    have "digits_value 5 (res @ [pad]) = drop_bit bits D * 2 ^ 5 + pad"
      by (simp only: digits_value_snoc r(3))
    also have "\<dots> = D * 2 ^ (5 - bits)"
      unfolding pd by (rule pad_value(3)[OF r(2)])
    finally have dv: "digits_value 5 (res @ [pad]) = D * 2 ^ (5 - bits)" .
    have n: "5 * length (res @ [pad]) = 8 * length data + (5 - bits)"
      using r(5) r(2) by simp
    have "5 - bits < 5" using True by simp
    then show ?thesis using c g dv n unfolding D_def by blast
  qed
qed

lemma convertBits_unpad:
  assumes "groups 8 data" "groups 5 enc" "p < 5"
    "digits_value 5 enc = digits_value 8 data * 2 ^ p" "5 * length enc = 8 * length data + p"
  shows "convertBits enc 5 8 False = Inr data"
proof -
  define D where "D = digits_value 8 data"
  from convert_loop_inv[of 8 5 enc 0 0 0 "[]"] assms(2)
  obtain acc bits res where
    l: "convert_loop 5 8 (2 ^ 8 - 1) enc 0 0 [] = Inr (acc, bits, res)" and
    r: "take_bit 32 acc = take_bit 32 (digits_value 5 enc)" "bits < 8"
       "drop_bit bits (digits_value 5 enc) = digits_value 8 res"
       "groups 8 res" "8 * length res + bits = 5 * length enc"
    by auto
  have m: "js_shl 1 (int 8) - 1 = 2 ^ 8 - 1" by (rule maxv_eq) simp
  have "\<not> length res < length data" using r(5) assms(5) r(2) by linarith
  moreover have "\<not> length data < length res" using r(5) assms(5) assms(3) by linarith
  ultimately have len: "length res = length data" by simp
  then have bp: "bits = p" using r(5) assms(5) by simp
  have e: "digits_value 5 enc = D * 2 ^ p" using assms(4) by (simp add: D_def)
  have "drop_bit p (D * 2 ^ p) = D" by (simp add: drop_bit_eq_div)
  then have "digits_value 8 res = digits_value 8 data" using r(3) e bp by (simp add: D_def)
  then have res: "res = data" using len r(4) assms(1) by (intro digits_value_inj) simp_all
  define chk where "chk = js_and (js_shl acc (int 8 - int bits)) (2 ^ 8 - 1)"
  have "take_bit p (D * 2 ^ p) = 0" by (simp add: take_bit_eq_mod)
  moreover have "chk = push_bit (8 - bits) (take_bit bits (digits_value 5 enc))"
    unfolding chk_def using r(1,2) by (intro pad_group) simp_all
  ultimately have z: "chk = 0" using e bp by simp
  have "\<not> (5 \<le> bits \<or> chk \<noteq> 0)" using z bp assms(3) by simp
  then show ?thesis
    using l m res by (simp add: convertBits_def bind_err_def chk_def)
qed

lemma convertBits_roundtrip:
  assumes "groups 8 data"
  shows "\<exists>enc. convertBits data 8 5 True = Inr enc \<and> groups 5 enc \<and>
               convertBits enc 5 8 False = Inr data"
  using convertBits_pad[OF assms] convertBits_unpad[OF assms] by blast

subsection \<open>Encoding and decoding strings\<close>

lemma js_and_31: "js_and x 31 = take_bit 5 x"
  using js_and_mask[of 5 x] by simp

lemma take_bit_5_less: "take_bit 5 (y :: int) < 32"
  using take_bit_int_less_exp[of 5 y] by simp

lemma createChecksum_groups: "length (createChecksum p d) = 6 \<and> groups 5 (createChecksum p d)"
  by (simp add: createChecksum_def Let_def groups_def list_all_iff js_and_31 take_bit_5_less)

lemma charset_index_all:
  "list_all (\<lambda>n. indexOf BECH32_CHARSET (BECH32_CHARSET ! n) = int n) [0..<32]"
  by code_simp

lemma charset_index: "n < 32 \<Longrightarrow> indexOf BECH32_CHARSET (BECH32_CHARSET ! n) = int n"
  using charset_index_all by (simp add: list_all_iff)

lemma charset_no_separator: "CHR ''1'' \<notin> set BECH32_CHARSET"
  by (simp add: BECH32_CHARSET_def)

lemma charset_length: "length BECH32_CHARSET = 32"
  by (simp add: BECH32_CHARSET_def)

lemma encoded_chars:
  "groups 5 xs \<Longrightarrow> concat (map charset_at xs) = map (\<lambda>i. BECH32_CHARSET ! nat i) xs"
  by (induction xs) (simp_all add: charset_at_def charset_length)

lemma encoded_no_separator:
  assumes "groups 5 xs"
  shows "CHR ''1'' \<notin> set (map (\<lambda>i. BECH32_CHARSET ! nat i) xs)"
proof
  assume "CHR ''1'' \<in> set (map (\<lambda>i. BECH32_CHARSET ! nat i) xs)"
  then obtain i where i: "i \<in> set xs" "BECH32_CHARSET ! nat i = CHR ''1''" by auto
  with assms have "nat i < length BECH32_CHARSET"
    by (auto simp: groups_def list_all_iff charset_length)
  then have "BECH32_CHARSET ! nat i \<in> set BECH32_CHARSET" by (rule nth_mem)
  with i(2) charset_no_separator show False by simp
qed

lemma decode_encoded:
  "groups 5 xs \<Longrightarrow> decode_chars (map (\<lambda>i. BECH32_CHARSET ! nat i) xs) = Inr xs"
proof (induction xs)
  case Nil then show ?case by simp
next
  case (Cons x xs)
  then have x: "0 \<le> x" "nat x < 32" by auto
  then have "indexOf BECH32_CHARSET (BECH32_CHARSET ! nat x) = x"
    using charset_index[of "nat x"] by simp
  with Cons x show ?case by (simp add: bind_err_def Let_def)
qed

lemma lastIndexOf_absent: "c \<notin> set s \<Longrightarrow> lastIndexOf s c = - 1"
  by (induction s) (auto simp: Let_def)

lemma lastIndexOf_ge: "- 1 \<le> lastIndexOf s c"
  by (induction s) (auto simp: Let_def)

lemma lastIndexOf_separator:
  "c \<notin> set ys \<Longrightarrow> lastIndexOf (xs @ c # ys) c = int (length xs)"
proof (induction xs)
  case Nil
  then show ?case by (simp add: lastIndexOf_absent Let_def)
next
  case (Cons x xs)
  then show ?case by (simp add: Let_def)
qed

lemma encode_shape:
  assumes "is_bytes bytes"
  shows "\<exists>tail. bech32Encode prefix bytes = Inr (prefix @ CHR ''1'' # tail) \<and> CHR ''1'' \<notin> set tail"
proof -
  from assms have g: "groups 8 bytes" by (simp add: is_bytes_def groups_def)
  from convertBits_roundtrip[OF g] obtain enc where
    e: "convertBits bytes 8 5 True = Inr enc" "groups 5 enc" by blast
  have g2: "groups 5 (enc @ createChecksum prefix enc)"
    using e(2) createChecksum_groups by simp
  show ?thesis
    using encoded_chars[OF g2] encoded_no_separator[OF g2]
    by (simp add: bech32Encode_def bind_err_def e(1) Let_def)
qed

lemma empty_prefix_fails:
  assumes "is_bytes bytes"
  shows "bind_err (bech32Encode [] bytes) bech32Decode = Inl (Error ''Invalid bech32 string'')"
proof -
  from encode_shape[OF assms, of "[]"] obtain tail where
    t: "bech32Encode [] bytes = Inr (CHR ''1'' # tail)" "CHR ''1'' \<notin> set tail" by auto
  have "lastIndexOf (CHR ''1'' # tail) (CHR ''1'') = 0"
    using lastIndexOf_separator[OF t(2), of "[]"] by simp
  then show ?thesis by (simp add: t(1) bind_err_def bech32Decode_def Let_def)
qed

lemma encode_result:
  assumes "is_bytes bytes"
  shows "\<exists>enc. groups 5 enc \<and> convertBits enc 5 8 False = Inr bytes \<and>
           bech32Encode prefix bytes =
             Inr (prefix @ CHR ''1'' #
                  map (\<lambda>i. BECH32_CHARSET ! nat i) (enc @ createChecksum prefix enc))"
proof -
  from assms have g: "groups 8 bytes" by (simp add: is_bytes_def groups_def)
  from convertBits_roundtrip[OF g] obtain enc where
    e: "convertBits bytes 8 5 True = Inr enc" "groups 5 enc" "convertBits enc 5 8 False = Inr bytes"
    by blast
  have g2: "groups 5 (enc @ createChecksum prefix enc)"
    using e(2) createChecksum_groups by simp
  have "bech32Encode prefix bytes =
          Inr (prefix @ CHR ''1'' #
               map (\<lambda>i. BECH32_CHARSET ! nat i) (enc @ createChecksum prefix enc))"
    using encoded_chars[OF g2] by (simp add: bech32Encode_def bind_err_def e(1) Let_def)
  with e(2,3) show ?thesis by blast
qed

lemma decode_result:
  assumes "prefix \<noteq> []" and "groups 5 enc" and "convertBits enc 5 8 False = Inr bytes"
  shows "bech32Decode
           (prefix @ CHR ''1'' #
            map (\<lambda>i. BECH32_CHARSET ! nat i) (enc @ createChecksum prefix enc)) =
         Inr (prefix, bytes)"
proof -
  define chk where "chk = createChecksum prefix enc"
  have c: "length chk = 6" "groups 5 chk" using createChecksum_groups by (simp_all add: chk_def)
  define tail where "tail = map (\<lambda>i. BECH32_CHARSET ! nat i) (enc @ chk)"
  define s where "s = prefix @ CHR ''1'' # tail"
  have g2: "groups 5 (enc @ chk)" using assms(2) c(2) by simp
  have ns: "CHR ''1'' \<notin> set tail" unfolding tail_def by (rule encoded_no_separator[OF g2])
  have pos: "lastIndexOf s (CHR ''1'') = int (length prefix)"
    unfolding s_def by (rule lastIndexOf_separator[OF ns])
  have p1: "\<not> int (length prefix) < 1" using assms(1) by (cases prefix) simp_all
  have tk: "take (length prefix) s = prefix" "drop (length prefix + 1) s = tail"
    by (simp_all add: s_def)
  have dc: "decode_chars tail = Inr (enc @ chk)" unfolding tail_def by (rule decode_encoded[OF g2])
  have sl: "take (length (enc @ chk) - 6) (enc @ chk) = enc"
    "drop (length (enc @ chk) - 6) (enc @ chk) = chk"
    using c(1) by simp_all
  have "bech32Decode s = Inr (prefix, bytes)"
    unfolding bech32Decode_def pos Let_def using p1
    by (simp only: if_False nat_int tk dc bind_err_def sum.case sl chk_def[symmetric] refl
        assms(3) simp_thms)
  then show ?thesis by (simp add: s_def tail_def chk_def)
qed

text \<open>
  Claim C2, as the code has it.  For every prefix that is not empty and every array of
  bytes, of 32 bytes as of any other length, \<open>bech32Encode\<close> returns a string and
  \<open>bech32Decode\<close> of that string returns exactly the prefix and the bytes.
\<close>

theorem bech32_roundtrip:
  assumes "prefix \<noteq> []" and "is_bytes bytes"
  shows "\<exists>s. bech32Encode prefix bytes = Inr s \<and> bech32Decode s = Inr (prefix, bytes)"
proof -
  from encode_result[OF assms(2), of prefix] obtain enc where
    e: "groups 5 enc" "convertBits enc 5 8 False = Inr bytes" and
    s: "bech32Encode prefix bytes =
          Inr (prefix @ CHR ''1'' #
               map (\<lambda>i. BECH32_CHARSET ! nat i) (enc @ createChecksum prefix enc))"
    by blast
  from decode_result[OF assms(1) e] s show ?thesis by blast
qed

text \<open>The theorem at the prefix \<open>npub\<close> and the 32 bytes of the example key.\<close>

theorem bech32_roundtrip_witness:
  "''npub'' \<noteq> [] \<and> is_bytes example_key \<and> length example_key = 32 \<and>
   (\<exists>s. bech32Encode ''npub'' example_key = Inr s \<and>
        bech32Decode s = Inr (''npub'', example_key))"
proof -
  have b: "is_bytes example_key" by (simp add: is_bytes_def example_key_def)
  have n: "''npub'' \<noteq> []" by simp
  from bech32_roundtrip[OF n b] show ?thesis using b by (simp add: example_key_def)
qed

text \<open>
  With the empty prefix the encoding starts with the separator, which \<open>bech32Decode\<close>
  refuses (\<open>pos < 1\<close>): decoding the encoding of 32 zero bytes throws.
\<close>

theorem bech32_empty_prefix_fails:
  "bind_err (bech32Encode [] (replicate 32 0)) bech32Decode =
     Inl (Error ''Invalid bech32 string'')"
  by (rule empty_prefix_fails) (simp add: is_bytes_def list_all_iff)

lemma npubDecode_iff:
  "(npubDecode s = Inr h) = (\<exists>d. bech32Decode s = Inr (''npub'', d) \<and> h = bytesToHex_nip19 d)"
  by (auto simp: npubDecode_def bind_err_def split: sum.splits)

lemma nsecDecode_iff:
  "(nsecDecode s = Inr h) = (\<exists>d. bech32Decode s = Inr (''nsec'', d) \<and> h = bytesToHex_nip19 d)"
  by (auto simp: nsecDecode_def bind_err_def split: sum.splits)

lemma noteDecode_iff:
  "(noteDecode s = Inr h) = (\<exists>d. bech32Decode s = Inr (''note'', d) \<and> h = bytesToHex_nip19 d)"
  by (auto simp: noteDecode_def bind_err_def split: sum.splits)

lemma typed_decode_any_length:
  assumes "is_bytes bytes"
  shows "\<exists>s. bech32Encode ''npub'' bytes = Inr s \<and> npubDecode s = Inr (bytesToHex_nip19 bytes)"
    and "\<exists>s. bech32Encode ''nsec'' bytes = Inr s \<and> nsecDecode s = Inr (bytesToHex_nip19 bytes)"
    and "\<exists>s. bech32Encode ''note'' bytes = Inr s \<and> noteDecode s = Inr (bytesToHex_nip19 bytes)"
proof -
  have rt: "\<exists>s. bech32Encode tag bytes = Inr s \<and> bech32Decode s = Inr (tag, bytes)"
    if "tag \<noteq> []" for tag
  proof -
    from encode_result[OF assms, of tag] obtain enc where
      e: "groups 5 enc" "convertBits enc 5 8 False = Inr bytes" and
      s: "bech32Encode tag bytes =
            Inr (tag @ CHR ''1'' #
                 map (\<lambda>i. BECH32_CHARSET ! nat i) (enc @ createChecksum tag enc))"
      by blast
    from decode_result[OF that e] s show ?thesis by blast
  qed
  show "\<exists>s. bech32Encode ''npub'' bytes = Inr s \<and> npubDecode s = Inr (bytesToHex_nip19 bytes)"
    using rt[of "''npub''"] by (auto simp: npubDecode_iff)
  show "\<exists>s. bech32Encode ''nsec'' bytes = Inr s \<and> nsecDecode s = Inr (bytesToHex_nip19 bytes)"
    using rt[of "''nsec''"] by (auto simp: nsecDecode_iff)
  show "\<exists>s. bech32Encode ''note'' bytes = Inr s \<and> noteDecode s = Inr (bytesToHex_nip19 bytes)"
    using rt[of "''note''"] by (auto simp: noteDecode_iff)
qed

lemma hex00: "bytesToHex_nip19 [0] = ''00''"
  by (simp add: bytesToHex_nip19_def toString16_def padStart2_def hex_digits.simps)

text \<open>
  Claim C5, as the code has it.  Each typed decoder succeeds exactly when \<open>bech32Decode\<close>
  succeeds and the decoded prefix is the expected tag, and then returns the payload in
  hexadecimal; a string that decodes with another prefix makes it throw
  \<open>Invalid npub\<close> (\<open>nsec\<close>, \<open>note\<close>).  The length of the payload is not looked at: the
  encoding of a byte array of any length under the expected tag is accepted.
\<close>

theorem typed_decoders_check_prefix_only:
  "((npubDecode s = Inr h) =
      (\<exists>d. bech32Decode s = Inr (''npub'', d) \<and> h = bytesToHex_nip19 d)) \<and>
   ((nsecDecode s = Inr h) =
      (\<exists>d. bech32Decode s = Inr (''nsec'', d) \<and> h = bytesToHex_nip19 d)) \<and>
   ((noteDecode s = Inr h) =
      (\<exists>d. bech32Decode s = Inr (''note'', d) \<and> h = bytesToHex_nip19 d)) \<and>
   (bech32Decode s = Inr (p, d) \<and> p \<noteq> ''npub'' \<longrightarrow> npubDecode s = Inl (Error ''Invalid npub'')) \<and>
   (bech32Decode s = Inr (p, d) \<and> p \<noteq> ''nsec'' \<longrightarrow> nsecDecode s = Inl (Error ''Invalid nsec'')) \<and>
   (bech32Decode s = Inr (p, d) \<and> p \<noteq> ''note'' \<longrightarrow> noteDecode s = Inl (Error ''Invalid note'')) \<and>
   (is_bytes bytes \<longrightarrow>
      (\<exists>e. bech32Encode ''npub'' bytes = Inr e \<and> npubDecode e = Inr (bytesToHex_nip19 bytes)) \<and>
      (\<exists>e. bech32Encode ''nsec'' bytes = Inr e \<and> nsecDecode e = Inr (bytesToHex_nip19 bytes)) \<and>
      (\<exists>e. bech32Encode ''note'' bytes = Inr e \<and> noteDecode e = Inr (bytesToHex_nip19 bytes)))"
proof -
  have wrong:
    "bech32Decode s = Inr (p, d) \<and> p \<noteq> ''npub'' \<longrightarrow> npubDecode s = Inl (Error ''Invalid npub'')"
    "bech32Decode s = Inr (p, d) \<and> p \<noteq> ''nsec'' \<longrightarrow> nsecDecode s = Inl (Error ''Invalid nsec'')"
    "bech32Decode s = Inr (p, d) \<and> p \<noteq> ''note'' \<longrightarrow> noteDecode s = Inl (Error ''Invalid note'')"
    by (simp_all add: npubDecode_def nsecDecode_def noteDecode_def bind_err_def)
  show ?thesis
    using npubDecode_iff[of s h] nsecDecode_iff[of s h] noteDecode_iff[of s h] wrong
      typed_decode_any_length[of bytes]
    by blast
qed

text \<open>The theorem at a payload of one byte.\<close>

theorem typed_decoders_check_prefix_only_witness:
  "is_bytes [0] \<and>
   (\<exists>e. bech32Encode ''npub'' [0] = Inr e \<and> npubDecode e = Inr ''00'')"
proof -
  have b: "is_bytes [0]" by (simp add: is_bytes_def)
  from typed_decoders_check_prefix_only[where bytes = "[0]"] b
  have "\<exists>e. bech32Encode ''npub'' [0] = Inr e \<and> npubDecode e = Inr (bytesToHex_nip19 [0])"
    by blast
  then show ?thesis using b by (simp add: hex00)
qed

text \<open>
  A well-formed \<open>npub\<close> string whose payload is a single byte: \<open>npubDecode\<close> succeeds
  and returns two hexadecimal digits.
\<close>

theorem npubDecode_accepts_one_byte:
  "bech32Decode ''npub1qq46sa2f'' = Inr (''npub'', [0]) \<and>
   npubDecode ''npub1qq46sa2f'' = Inr ''00''"
proof -
  have d: "bech32Decode ''npub1qq46sa2f'' = Inr (''npub'', [0])"
    by code_simp
  then show ?thesis by (simp add: npubDecode_def bind_err_def hex00)
qed

end
